theory Spec2Isabelle
  imports Complex_Main "HOL-Library.Multiset"
begin

section \<open>Data model\<close>

text \<open>
  The notebooks are Python over numpy. Every exception the modelled code can raise is a
  value of \<open>py_error\<close>; a function that may raise returns \<open>py_error + 'a\<close> with
  \<open>Inl\<close> for the exception. \<open>ValueError\<close> is what numpy raises on an empty reduction,
  on a transpose whose axes do not fit, and on NaN probabilities; \<open>IndexError\<close> is an
  index out of range; \<open>AxisError\<close> is a reduction along an axis the array does not have;
  \<open>EngineFailure\<close> is any exception of the compiled model.
\<close>

datatype py_error = ValueError | IndexError | AxisError | EngineFailure

text \<open>
  A logit is a float. The code only compares, negates and exponentiates logits, and writes
  \<open>-float("inf")\<close> into them, so a logit is modelled as a real number or one of the two
  infinities. NaN logits are outside the model.
\<close>

datatype score = MInf | Fin real | PInf

text \<open>Unary minus on floats, as in \<open>-scores\<close>.\<close>

fun score_neg :: "score \<Rightarrow> score" where
  "score_neg MInf = PInf"
| "score_neg (Fin a) = Fin (- a)"
| "score_neg PInf = MInf"

text \<open>The order of floats: \<open>-inf\<close> below every number, \<open>+inf\<close> above.\<close>

instantiation score :: linorder
begin

fun less_eq_score :: "score \<Rightarrow> score \<Rightarrow> bool" where
  "less_eq_score MInf y = True"
| "less_eq_score (Fin a) MInf = False"
| "less_eq_score (Fin a) (Fin b) = (a \<le> b)"
| "less_eq_score (Fin a) PInf = True"
| "less_eq_score PInf PInf = True"
| "less_eq_score PInf y = False"

definition less_score :: "score \<Rightarrow> score \<Rightarrow> bool" where
  "less_score x y = (x \<le> y \<and> \<not> y \<le> x)"

instance
proof
  fix x y z :: score
  show "(x < y) = (x \<le> y \<and> \<not> y \<le> x)" by (simp add: less_score_def)
  show "x \<le> x" by (cases x) simp_all
  show "x \<le> y \<Longrightarrow> y \<le> z \<Longrightarrow> x \<le> z" by (cases x; cases y; cases z) simp_all
  show "x \<le> y \<Longrightarrow> y \<le> x \<Longrightarrow> x = y" by (cases x; cases y) simp_all
  show "x \<le> y \<or> y \<le> x" by (cases x; cases y) auto
qed

end

text \<open>
  Indexing a Python sequence or a numpy axis of length \<open>len\<close>: an index below zero
  counts from the end, and one that falls outside raises IndexError.
\<close>

definition norm_index :: "nat \<Rightarrow> int \<Rightarrow> py_error + nat" where
  "norm_index len i =
     (if i < - int len \<or> int len \<le> i then Inl IndexError
      else if i < 0 then Inr (nat (int len + i))
      else Inr (nat i))"

definition py_index :: "'a list \<Rightarrow> int \<Rightarrow> py_error + 'a" where
  "py_index xs i = (case norm_index (length xs) i of Inl e \<Rightarrow> Inl e | Inr j \<Rightarrow> Inr (xs ! j))"

section \<open>Logit post-processing (notebook 223, GPT-2 text prediction)\<close>

text \<open>
  In the notebook every array carries a leading batch axis of size one (\<open>tokenize\<close>
  encodes a single text). The model drops that axis: \<open>scores\<close> is the one row of logits,
  \<open>input_ids\<close> the one row of tokens.
\<close>

text \<open>\<open>np.min\<close> and \<open>np.max\<close> of an array; both raise ValueError on an empty one.\<close>

fun np_min :: "score list \<Rightarrow> py_error + score" where
  "np_min [] = Inl ValueError"
| "np_min (x # xs) = Inr (fold min xs x)"

fun np_max :: "score list \<Rightarrow> py_error + score" where
  "np_max [] = Inl ValueError"
| "np_max (x # xs) = Inr (fold max xs x)"

text \<open>
  \<^verbatim>\<open>
  def get_top_k_logits(scores, top_k):
      filter_value = -float("inf")
      top_k = min(max(top_k, 1), scores.shape[-1])
      top_k_scores = -np.sort(-scores)[:, :top_k]
      indices_to_remove = scores < np.min(top_k_scores)
      filtred_scores = np.ma.array(scores, mask=indices_to_remove,
                                   fill_value=filter_value).filled()
      return filtred_scores
  \<close>
  \<open>np.sort\<close> sorts ascending, so the negated sort of the negated row is the row in descending
  order; the slice keeps its first \<open>top_k\<close> entries. On an empty row the clamped \<open>top_k\<close> is
  0 and \<open>np.min\<close> raises.
\<close>

definition get_top_k_logits :: "score list \<Rightarrow> int \<Rightarrow> py_error + score list" where
  "get_top_k_logits scores top_k =
     (let filter_value = MInf;
          top_k = min (max top_k 1) (int (length scores));
          top_k_scores = take (nat top_k) (map score_neg (sort (map score_neg scores)))
      in case np_min top_k_scores of
           Inl e \<Rightarrow> Inl e
         | Inr m \<Rightarrow> Inr (map (\<lambda>s. if s < m then filter_value else s) scores))"

text \<open>
  \<^verbatim>\<open>
  def process_logits(cur_length, scores, eos_token_id, min_length=0):
      if cur_length < min_length:
          scores[:, eos_token_id] = -float("inf")
      return scores
  \<close>
\<close>

definition process_logits :: "int \<Rightarrow> score list \<Rightarrow> int \<Rightarrow> int \<Rightarrow> py_error + score list" where
  "process_logits cur_length scores eos_token_id min_length =
     (if cur_length < min_length
      then (case norm_index (length scores) eos_token_id of
              Inl e \<Rightarrow> Inl e
            | Inr j \<Rightarrow> Inr (scores[j := MInf]))
      else Inr scores)"

text \<open>
  A probability is a float as well, and here NaN does occur: \<open>inf - inf\<close> is NaN, so a
  row whose maximum is infinite makes every entry of the softmax NaN.
\<close>

datatype prob = NaN | Pr real

text \<open>
  \<^verbatim>\<open>
  def softmax(x):
      e_x = np.exp(x - np.max(x, axis=-1, keepdims=True))
      summation = e_x.sum(axis=-1, keepdims=True)
      return e_x / summation
  \<close>
  Arithmetic is that of the real numbers: \<open>exp\<close> is the real exponential and the rounding
  of floats is not modelled. \<open>exp_shifted s c\<close> is \<open>np.exp(s - c)\<close> for a finite \<open>c\<close>, with
  \<open>exp(-inf) = 0\<close>. An entry \<open>+inf\<close> cannot occur in a row with a finite maximum, so the
  last equation of \<open>exp_shifted\<close> is never used.
\<close>

fun exp_shifted :: "score \<Rightarrow> real \<Rightarrow> real" where
  "exp_shifted MInf c = 0"
| "exp_shifted (Fin a) c = exp (a - c)"
| "exp_shifted PInf c = 0"

definition softmax :: "score list \<Rightarrow> py_error + prob list" where
  "softmax x =
     (case np_max x of
        Inl e \<Rightarrow> Inl e
      | Inr m \<Rightarrow>
          (case m of
             Fin c \<Rightarrow>
               (let e_x = map (\<lambda>s. exp_shifted s c) x;
                    summation = sum_list e_x
                in Inr (map (\<lambda>e. Pr (e / summation)) e_x))
           | _ \<Rightarrow> Inr (replicate (length x) NaN)))"

text \<open>
  \<open>np.random.choice(n, 1, p=p)\<close> raises ValueError when \<open>p\<close> is empty or holds NaN, and
  otherwise returns a random index that has a positive probability. (It also rejects
  probabilities that are negative or do not sum to 1, which the result of \<open>softmax\<close> never
  is.) \<open>can_draw p i\<close> says that \<open>i\<close> is one of its possible results. In the generation
  loop the random source is an explicit oracle \<open>draw\<close>, which picks the index from the
  probabilities.
\<close>

fun pr_val :: "prob \<Rightarrow> real" where
  "pr_val NaN = 0"
| "pr_val (Pr x) = x"

definition can_draw :: "prob list \<Rightarrow> nat \<Rightarrow> bool" where
  "can_draw p i =
     (i < length p \<and> NaN \<notin> set p \<and> (case p ! i of NaN \<Rightarrow> False | Pr x \<Rightarrow> 0 < x))"

definition np_random_choice :: "(real list \<Rightarrow> nat) \<Rightarrow> prob list \<Rightarrow> py_error + nat" where
  "np_random_choice draw p =
     (if p = [] \<or> NaN \<in> set p then Inl ValueError else Inr (draw (map pr_val p)))"

text \<open>
  The sampling pipeline of one generation step for a given \<open>top_k\<close>: filter, normalise,
  draw. \<open>sample_top_k scores top_k tok\<close> holds when \<open>tok\<close> is a possible outcome.
\<close>

definition sample_top_k :: "score list \<Rightarrow> int \<Rightarrow> nat \<Rightarrow> bool" where
  "sample_top_k scores top_k tok =
     (case get_top_k_logits scores top_k of
        Inl e \<Rightarrow> False
      | Inr next_token_scores \<Rightarrow>
          (case softmax next_token_scores of
             Inl e \<Rightarrow> False
           | Inr probs \<Rightarrow> can_draw probs tok))"

text \<open>
  \<open>np.argmax\<close> of a row scans it once and moves to a later index only on a strictly
  greater entry; an empty row raises ValueError. It is used on logits and on the label
  scores of the text recognition model, so the entries are of any linearly ordered type.
\<close>

fun argmax_scan :: "'a::linorder list \<Rightarrow> nat \<Rightarrow> 'a \<Rightarrow> nat \<Rightarrow> nat" where
  "argmax_scan [] i best best_i = best_i"
| "argmax_scan (x # xs) i best best_i =
     (if best < x then argmax_scan xs (Suc i) x i
      else argmax_scan xs (Suc i) best best_i)"

definition np_argmax :: "'a::linorder list \<Rightarrow> py_error + nat" where
  "np_argmax row = (case row of [] \<Rightarrow> Inl ValueError | x # xs \<Rightarrow> Inr (argmax_scan xs 1 x 0))"

section \<open>The generation loop\<close>

text \<open>
  The loop state: the token row, the mask row, and the number of calls of the compiled
  model made so far. The counter is not in the source; it is there to state how often the
  engine runs, and only \<open>call_engine\<close> changes it.
\<close>

record gen_state =
  input_ids :: "int list"
  attention_mask :: "int list"
  calls :: nat

text \<open>
  The compiled model is a parameter: it maps the token row and the mask row to the output
  tensor (one row of logits per position), or raises. Every application of it in the loop
  goes through \<open>call_engine\<close>, which counts the call. The random source is a parameter
  too: \<open>rnd n\<close> is the draw that follows engine call number \<open>n\<close>.
\<close>

type_synonym engine = "int list \<Rightarrow> int list \<Rightarrow> py_error + score list list"
type_synonym random_source = "nat \<Rightarrow> real list \<Rightarrow> nat"

definition call_engine ::
  "engine \<Rightarrow> int list \<Rightarrow> int list \<Rightarrow> gen_state \<Rightarrow> (py_error + score list list) \<times> gen_state" where
  "call_engine compiled_model model_input_ids model_input_attention_mask st =
     (compiled_model model_input_ids model_input_attention_mask, st\<lparr>calls := Suc (calls st)\<rparr>)"

text \<open>
  \<^verbatim>\<open>
  cur_input_len = len(input_ids[0])
  if not dynamic_shapes:
      pad_len = max_sequence_length - cur_input_len
      model_input_ids = np.concatenate((input_ids, [[eos_token_id] * pad_len]), axis=-1)
      model_input_attention_mask = np.concatenate((attention_mask, [[0] * pad_len]), axis=-1)
  else:
      model_input_ids = input_ids
      model_input_attention_mask = attention_mask
  outputs = compiled_model({"input_ids": model_input_ids,
                            "attention_mask": model_input_attention_mask})[output_key]
  next_token_logits = outputs[:, cur_input_len - 1, :]
  next_token_scores = process_logits(cur_input_len, next_token_logits, eos_token_id)
  top_k = 20
  next_token_scores = get_top_k_logits(next_token_scores, top_k)
  probs = softmax(next_token_scores)
  next_tokens = np.random.choice(probs.shape[-1], 1, p=probs[0], replace=True)
  \<close>
  A list multiplied by a negative number is empty, hence \<open>nat pad_len\<close>.
  \<open>model_inputs\<close> are the two rows handed to the engine, \<open>sample_token\<close> is the part
  from the engine call to the draw, with the state after the call, and \<open>next_tokens\<close> is
  the value of the variable of that name, or the exception raised on the way to it.
\<close>

definition model_inputs :: "int \<Rightarrow> int \<Rightarrow> bool \<Rightarrow> gen_state \<Rightarrow> int list \<times> int list" where
  "model_inputs max_sequence_length eos_token_id dynamic_shapes st =
     (let cur_input_len = int (length (input_ids st));
          pad_len = max_sequence_length - cur_input_len
      in if \<not> dynamic_shapes
         then (input_ids st @ replicate (nat pad_len) eos_token_id,
               attention_mask st @ replicate (nat pad_len) 0)
         else (input_ids st, attention_mask st))"

definition sample_token ::
  "engine \<Rightarrow> random_source \<Rightarrow> int \<Rightarrow> int \<Rightarrow> bool \<Rightarrow> gen_state \<Rightarrow> (py_error + nat) \<times> gen_state" where
  "sample_token compiled_model rnd max_sequence_length eos_token_id dynamic_shapes st =
     (let cur_input_len = int (length (input_ids st));
          (model_input_ids, model_input_attention_mask) =
             model_inputs max_sequence_length eos_token_id dynamic_shapes st;
          (outputs, called) = call_engine compiled_model model_input_ids model_input_attention_mask st
      in (case outputs of
           Inl e \<Rightarrow> Inl e
         | Inr outputs \<Rightarrow>
        (case py_index outputs (cur_input_len - 1) of
           Inl e \<Rightarrow> Inl e
         | Inr next_token_logits \<Rightarrow>
        (case process_logits cur_input_len next_token_logits eos_token_id 0 of
           Inl e \<Rightarrow> Inl e
         | Inr next_token_scores \<Rightarrow>
        (case get_top_k_logits next_token_scores 20 of
           Inl e \<Rightarrow> Inl e
         | Inr next_token_scores \<Rightarrow>
        (case softmax next_token_scores of
           Inl e \<Rightarrow> Inl e
         | Inr probs \<Rightarrow> np_random_choice (rnd (calls st)) probs)))), called))"

definition next_tokens ::
  "engine \<Rightarrow> random_source \<Rightarrow> int \<Rightarrow> int \<Rightarrow> bool \<Rightarrow> gen_state \<Rightarrow> py_error + nat" where
  "next_tokens compiled_model rnd max_sequence_length eos_token_id dynamic_shapes st =
     fst (sample_token compiled_model rnd max_sequence_length eos_token_id dynamic_shapes st)"

text \<open>
  \<^verbatim>\<open>
  while True:
      ...
      if cur_input_len == max_sequence_length or next_tokens == eos_token_id:
          break
      else:
          input_ids = np.concatenate((input_ids, [next_tokens]), axis=-1)
          attention_mask = np.concatenate((attention_mask, [[1] * len(next_tokens)]), axis=-1)
  return input_ids
  \<close>
  \<open>loop_body\<close> is one iteration: it stops the loop with an outcome (the \<open>break\<close>
  followed by \<open>return input_ids\<close>, or an exception), or continues with the next
  state. The loop has no bound of its own, so it is a partial function: \<open>None\<close> is a
  run that never returns. A run that ends gives its outcome and the state at the end of
  its last iteration.
\<close>

datatype outcome = Returned "int list" | Raised py_error

datatype step = Stop outcome gen_state | Continue gen_state

definition loop_body ::
  "engine \<Rightarrow> random_source \<Rightarrow> int \<Rightarrow> int \<Rightarrow> bool \<Rightarrow> gen_state \<Rightarrow> step" where
  "loop_body compiled_model rnd max_sequence_length eos_token_id dynamic_shapes st =
     (case sample_token compiled_model rnd max_sequence_length eos_token_id dynamic_shapes st of
        (Inl e, called) \<Rightarrow> Stop (Raised e) called
      | (Inr tok, called) \<Rightarrow>
          if int (length (input_ids st)) = max_sequence_length \<or> int tok = eos_token_id
          then Stop (Returned (input_ids st)) called
          else Continue (called\<lparr>input_ids := input_ids st @ [int tok],
                                attention_mask := attention_mask st @ [1]\<rparr>))"

partial_function (option) generate_loop ::
  "engine \<Rightarrow> random_source \<Rightarrow> int \<Rightarrow> int \<Rightarrow> bool \<Rightarrow> gen_state \<Rightarrow> (outcome \<times> gen_state) option" where
  "generate_loop compiled_model rnd max_sequence_length eos_token_id dynamic_shapes st =
     (case loop_body compiled_model rnd max_sequence_length eos_token_id dynamic_shapes st of
        Stop out fin \<Rightarrow> Some (out, fin)
      | Continue st' \<Rightarrow>
          generate_loop compiled_model rnd max_sequence_length eos_token_id dynamic_shapes st')"

definition generate_sequence ::
  "engine \<Rightarrow> random_source \<Rightarrow> int list \<Rightarrow> int list \<Rightarrow> int \<Rightarrow> int \<Rightarrow> bool \<Rightarrow> outcome option" where
  "generate_sequence compiled_model rnd ids msk max_sequence_length eos_token_id dynamic_shapes =
     map_option fst
       (generate_loop compiled_model rnd max_sequence_length eos_token_id dynamic_shapes
          \<lparr>input_ids = ids, attention_mask = msk, calls = 0\<rparr>)"

text \<open>
  The states a run passes through: \<open>reaches \<dots> st st'\<close> when the loop, started in
  \<open>st\<close>, enters an iteration in state \<open>st'\<close>.
\<close>

inductive reaches ::
  "engine \<Rightarrow> random_source \<Rightarrow> int \<Rightarrow> int \<Rightarrow> bool \<Rightarrow> gen_state \<Rightarrow> gen_state \<Rightarrow> bool"
  for compiled_model rnd max_sequence_length eos_token_id dynamic_shapes
  where
    reaches_start: "reaches compiled_model rnd max_sequence_length eos_token_id dynamic_shapes st st"
  | reaches_step:
      "reaches compiled_model rnd max_sequence_length eos_token_id dynamic_shapes st st' \<Longrightarrow>
       loop_body compiled_model rnd max_sequence_length eos_token_id dynamic_shapes st' = Continue st'' \<Longrightarrow>
       reaches compiled_model rnd max_sequence_length eos_token_id dynamic_shapes st st''"

text \<open>The attention mask is parallel to the token row: same length, entries 0 or 1.\<close>

definition mask_parallel :: "gen_state \<Rightarrow> bool" where
  "mask_parallel st =
     (length (attention_mask st) = length (input_ids st) \<and> list_all (\<lambda>m. m = 0 \<or> m = 1) (attention_mask st))"

text \<open>
  Two stand-ins for the collaborators, for running the loop on concrete inputs: an engine
  over a vocabulary of three tokens that scores every token 0 at every position, and a
  random source that replays a given list of draws and draws token 0 afterwards.
\<close>

definition flat_engine :: engine where
  "flat_engine ids msk = Inr (replicate (length ids) [Fin 0, Fin 0, Fin 0])"

definition scripted :: "nat list \<Rightarrow> random_source" where
  "scripted draws n p = (if n < length draws then draws ! n else 0)"

section \<open>Greedy CTC decoding (handwritten text recognition notebook)\<close>

text \<open>
  The decoding is top-level notebook code; each definition is named after the variable it
  computes. The model output has the axes time step, batch and label, with a batch of one
  image; it is modelled as the matrix with one row per time step and one column per label,
  label 0 being the blank. A row is a list of reals; only comparisons are made on the
  entries.

  \<^verbatim>\<open>
  predictions = np.squeeze(predictions)
  predictions_indexes = np.argmax(predictions, axis=1)
  \<close>
  \<open>np.squeeze\<close> removes every axis of length one: the batch axis, but also the time axis
  of an output with a single time step and the label axis of one with a single label.
  \<open>np_squeeze\<close> is \<open>None\<close> when fewer than two axes are left; the arg-max along axis 1
  then raises AxisError.
\<close>

definition np_squeeze :: "real list list \<Rightarrow> real list list option" where
  "np_squeeze predictions =
     (if length predictions = 1 \<or> list_ex (\<lambda>row. length row = 1) predictions then None
      else Some predictions)"

fun argmax_axis1 :: "real list list \<Rightarrow> py_error + nat list" where
  "argmax_axis1 [] = Inr []"
| "argmax_axis1 (row # rows) =
     (case np_argmax row of
        Inl e \<Rightarrow> Inl e
      | Inr i \<Rightarrow>
          (case argmax_axis1 rows of
             Inl e \<Rightarrow> Inl e
           | Inr rest \<Rightarrow> Inr (i # rest)))"

definition predictions_indexes :: "real list list \<Rightarrow> py_error + nat list" where
  "predictions_indexes predictions =
     (case np_squeeze predictions of
        None \<Rightarrow> Inl AxisError
      | Some squeezed \<Rightarrow> argmax_axis1 squeezed)"

text \<open>
  \<open>itertools.groupby\<close> yields one (key, group) pair for every maximal run of equal
  consecutive elements; \<open>groupby_keys\<close> are the keys, in order. \<open>groupby_run k xs\<close>
  continues inside a run of key \<open>k\<close>.
\<close>

fun groupby_run :: "'a \<Rightarrow> 'a list \<Rightarrow> 'a list" where
  "groupby_run k [] = []"
| "groupby_run k (x # xs) = (if x = k then groupby_run k xs else x # groupby_run x xs)"

fun groupby_keys :: "'a list \<Rightarrow> 'a list" where
  "groupby_keys [] = []"
| "groupby_keys (x # xs) = x # groupby_run x xs"

text \<open>
  \<^verbatim>\<open>
  output_text_indexes = list(groupby(predictions_indexes))
  output_text_indexes, _ = np.transpose(output_text_indexes, (1, 0))
  output_text_indexes = output_text_indexes[output_text_indexes != 0]
  \<close>
  The transpose turns the list of pairs into the row of keys and the row of groups. With no
  pair at all the array has one axis only and the transpose along two axes raises
  ValueError.
\<close>

definition output_text_indexes :: "nat list \<Rightarrow> py_error + nat list" where
  "output_text_indexes indexes =
     (let groups = groupby_keys indexes
      in if groups = [] then Inl ValueError
         else Inr (filter (\<lambda>i. i \<noteq> 0) groups))"

text \<open>
  \<^verbatim>\<open>
  letters = blank_char + "".join(line.strip() for line in charlist)
  output_text = [letters[letter_index] for letter_index in output_text_indexes]
  \<close>
  The charlist is the sequence of its symbols, one per label.
\<close>

fun output_text :: "'c list \<Rightarrow> nat list \<Rightarrow> py_error + 'c list" where
  "output_text letters [] = Inr []"
| "output_text letters (letter_index # rest) =
     (case py_index letters (int letter_index) of
        Inl e \<Rightarrow> Inl e
      | Inr c \<Rightarrow>
          (case output_text letters rest of
             Inl e \<Rightarrow> Inl e
           | Inr cs \<Rightarrow> Inr (c # cs)))"

text \<open>The three cells in sequence: the decoder of a probability matrix.\<close>

definition decode :: "real list list \<Rightarrow> 'c \<Rightarrow> 'c list \<Rightarrow> py_error + 'c list" where
  "decode predictions blank_char charlist =
     (let letters = blank_char # charlist
      in case predictions_indexes predictions of
           Inl e \<Rightarrow> Inl e
         | Inr indexes \<Rightarrow>
             (case output_text_indexes indexes of
                Inl e \<Rightarrow> Inl e
              | Inr kept \<Rightarrow> output_text letters kept))"

section \<open>Notions of the specification\<close>

text \<open>
  The definitions of this section are not code of the notebooks. They write down the words
  the specification uses about the code, so that the code can be compared with them.

  The k-th highest score of a row, and \<open>k\<close> clamped to the range from 1 to the vocabulary
  size.
\<close>

definition kth_highest :: "score list \<Rightarrow> nat \<Rightarrow> score" where
  "kth_highest scores k = rev (sort scores) ! (k - 1)"

definition clamp_top_k :: "score list \<Rightarrow> int \<Rightarrow> nat" where
  "clamp_top_k scores top_k =
     (if top_k < 1 then 1
      else if int (length scores) < top_k then length scores
      else nat top_k)"

text \<open>The arg-max with ties broken by the lowest index: the first position of the maximum.\<close>

definition first_max_index :: "'a::linorder list \<Rightarrow> nat" where
  "first_max_index row = length (takeWhile (\<lambda>x. x \<noteq> Max (set row)) row)"

text \<open>
  Decoding in the order the specification gives: arg-max of every row, collapse of
  consecutive repeats, removal of the blank label 0, then label \<open>i\<close> to \<open>charlist[i-1]\<close>.
\<close>

definition ctc_spec :: "real list list \<Rightarrow> 'c list \<Rightarrow> 'c list" where
  "ctc_spec predictions charlist =
     map (\<lambda>i. charlist ! (i - 1))
       (filter (\<lambda>i. i \<noteq> 0) (remdups_adj (map first_max_index predictions)))"

text \<open>
  Modelled from the spec: \<open>expand\<close>, which no notebook defines. It maps a symbol sequence
  to a probability matrix with one frame per symbol: the frame of a symbol has score 1 at
  the label of that symbol (one more than its first position in the charlist) and score 0
  at every other label.
\<close>

definition label_of :: "'c list \<Rightarrow> 'c \<Rightarrow> nat" where
  "label_of charlist c = Suc (length (takeWhile (\<lambda>x. x \<noteq> c) charlist))"

definition frame_of :: "nat \<Rightarrow> nat \<Rightarrow> real list" where
  "frame_of width l = map (\<lambda>j. if j = l then 1 else 0) [0..<width]"

definition expand :: "'c list \<Rightarrow> 'c list \<Rightarrow> real list list" where
  "expand symbols charlist = map (\<lambda>c. frame_of (Suc (length charlist)) (label_of charlist c)) symbols"

text \<open>Decoding, expanding the decoded sequence, and decoding again.\<close>

definition redecode :: "real list list \<Rightarrow> 'c \<Rightarrow> 'c list \<Rightarrow> py_error + 'c list" where
  "redecode predictions blank_char charlist =
     (case decode predictions blank_char charlist of
        Inl e \<Rightarrow> Inl e
      | Inr symbols \<Rightarrow> decode (expand symbols charlist) blank_char charlist)"

section \<open>Properties of \<open>np.argmax\<close>\<close>

lemma Max_insert_below:
  assumes "finite A" and "a \<in> A" and "b \<le> a"
  shows "Max (insert b A) = Max A"
proof -
  have "A \<noteq> {}" using assms(2) by auto
  then have "Max (insert b A) = max b (Max A)" using assms(1) by (intro Max_insert)
  moreover have "a \<le> Max A" using assms(1,2) by (rule Max_ge)
  then have "b \<le> Max A" using assms(3) by (rule order_trans[rotated])
  ultimately show ?thesis by (simp only: max.absorb2)
qed

lemma argmax_scan_first:
  "argmax_scan xs i best best_i =
     (if Max (insert best (set xs)) = best then best_i
      else i + length (takeWhile (\<lambda>x. x \<noteq> Max (insert best (set xs))) xs))"
proof (induction xs arbitrary: i best best_i)
  case Nil
  then show ?case by simp
next
  case (Cons x xs)
  define M where "M = Max (insert best (set (x # xs)))"
  have xM: "x \<le> M" and bM: "best \<le> M"
    unfolding M_def by (rule Max_ge; simp)+
  have "argmax_scan (x # xs) i best best_i =
          (if M = best then best_i else i + length (takeWhile (\<lambda>y. y \<noteq> M) (x # xs)))"
  proof (cases "best < x")
    case True
    have m: "Max (insert x (set xs)) = M"
      unfolding M_def using Max_insert_below[of "insert x (set xs)" x best] True by simp
    from True xM have nb: "M \<noteq> best" by auto
    have "argmax_scan (x # xs) i best best_i = argmax_scan xs (Suc i) x i"
      using True by simp
    also have "\<dots> = (if M = x then i else Suc i + length (takeWhile (\<lambda>y. y \<noteq> M) xs))"
      by (simp only: Cons.IH m)
    also have "\<dots> = i + length (takeWhile (\<lambda>y. y \<noteq> M) (x # xs))"
      by auto
    finally show ?thesis using nb by simp
  next
    case False
    have m: "Max (insert best (set xs)) = M"
    proof -
      have "insert best (set (x # xs)) = insert x (insert best (set xs))" by auto
      then show ?thesis
        unfolding M_def using Max_insert_below[of "insert best (set xs)" best x] False by simp
    qed
    have "argmax_scan (x # xs) i best best_i = argmax_scan xs (Suc i) best best_i"
      using False by simp
    also have "\<dots> = (if M = best then best_i
                        else Suc i + length (takeWhile (\<lambda>y. y \<noteq> M) xs))"
      by (simp only: Cons.IH m)
    finally have step: "argmax_scan (x # xs) i best best_i =
        (if M = best then best_i else Suc i + length (takeWhile (\<lambda>y. y \<noteq> M) xs))" .
    show ?thesis
    proof (cases "M = best")
      case True
      then show ?thesis using step by simp
    next
      case nb: False
      with bM False have "x \<noteq> M" by auto
      then show ?thesis using step nb by simp
    qed
  qed
  then show ?case by (simp only: M_def)
qed

lemma first_index_less: "x \<in> set xs \<Longrightarrow> length (takeWhile (\<lambda>y. y \<noteq> x) xs) < length xs"
  by (induction xs) auto

lemma before_first_index:
  assumes "j < length (takeWhile P xs)"
  shows "P (xs ! j)"
proof -
  have "takeWhile P xs ! j \<in> set (takeWhile P xs)" using assms by (rule nth_mem)
  then have "P (takeWhile P xs ! j)" by (auto dest: set_takeWhileD)
  then show ?thesis using assms by (simp add: takeWhile_nth)
qed

lemma np_argmax_first_max:
  assumes "row \<noteq> []"
  shows "np_argmax row = Inr (first_max_index row)"
proof (cases row)
  case Nil
  with assms show ?thesis by simp
next
  case (Cons x xs)
  then show ?thesis
    by (simp add: np_argmax_def first_max_index_def argmax_scan_first)
qed

lemma first_max_index_less:
  assumes "row \<noteq> []"
  shows "first_max_index row < length row"
proof -
  have "Max (set row) \<in> set row" using assms by (intro Max_in) simp_all
  then show ?thesis
    unfolding first_max_index_def by (rule first_index_less)
qed

lemma first_max_index_is_max:
  assumes "row \<noteq> []"
  shows "row ! first_max_index row = Max (set row)"
  using nth_length_takeWhile[of "\<lambda>x. x \<noteq> Max (set row)" row] first_max_index_less[OF assms]
  by (simp add: first_max_index_def)

lemma first_max_index_lowest:
  assumes "j < first_max_index row"
  shows "row ! j < Max (set row)"
proof -
  have jl: "j < length row"
    using assms length_takeWhile_le[of "\<lambda>x. x \<noteq> Max (set row)" row]
    by (simp add: first_max_index_def)
  have "row ! j \<noteq> Max (set row)"
    using assms before_first_index[of j "\<lambda>x. x \<noteq> Max (set row)" row]
    by (simp add: first_max_index_def)
  moreover have "row ! j \<le> Max (set row)" using jl by (intro Max_ge) simp_all
  ultimately show ?thesis by simp
qed

section \<open>Properties of the top-k filter\<close>

lemma score_neg_neg [simp]: "score_neg (score_neg s) = s"
  by (cases s) simp_all

lemma score_neg_le [simp]: "score_neg a \<le> score_neg b \<longleftrightarrow> b \<le> a"
  by (cases a; cases b) simp_all

lemma sort_desc_via_neg: "map score_neg (sort (map score_neg xs)) = rev (sort xs)"
proof -
  let ?zs = "sort (map score_neg xs)"
  have "sorted ?zs" by simp
  then have "sorted_wrt (\<lambda>a b. score_neg b \<le> score_neg a) ?zs"
    by (rule sorted_wrt_mono_rel[rotated]) simp
  then have "sorted_wrt (\<lambda>a b. b \<le> a) (map score_neg ?zs)"
    by (simp add: sorted_wrt_map)
  then have s: "sorted (rev (map score_neg ?zs))"
    by (simp add: sorted_wrt_rev)
  have "mset (rev (map score_neg ?zs)) = mset xs"
    by (simp add: multiset.map_comp comp_def)
  then have "sort xs = rev (map score_neg ?zs)"
    using s by (rule properties_for_sort)
  then show ?thesis by simp
qed

lemma np_min_Min:
  assumes "xs \<noteq> []"
  shows "np_min xs = Inr (Min (set xs))"
proof (cases xs)
  case Nil
  with assms show ?thesis by simp
next
  case (Cons a l)
  then show ?thesis using Min.set_eq_fold[of a l] by simp
qed

lemma np_max_Max:
  assumes "xs \<noteq> []"
  shows "np_max xs = Inr (Max (set xs))"
proof (cases xs)
  case Nil
  with assms show ?thesis by simp
next
  case (Cons a l)
  then show ?thesis using Max.set_eq_fold[of a l] by simp
qed

lemma Min_take_desc:
  assumes d: "sorted_wrt (\<lambda>a b. b \<le> a) ds" and k: "0 < k" "k \<le> length ds"
  shows "Min (set (take k ds)) = ds ! (k - 1)"
proof (rule Min_eqI)
  show "finite (set (take k ds))" by simp
  show "ds ! (k - 1) \<in> set (take k ds)"
    using k by (auto simp: in_set_conv_nth intro!: exI[of _ "k - 1"])
  fix y assume "y \<in> set (take k ds)"
  then obtain i where i: "i < k" "y = ds ! i"
    using k by (auto simp: in_set_conv_nth)
  show "ds ! (k - 1) \<le> y"
  proof (cases "i = k - 1")
    case True with i show ?thesis by simp
  next
    case False
    with i k have "i < k - 1" "k - 1 < length ds" by auto
    with d i show ?thesis by (simp add: sorted_wrt_iff_nth_less)
  qed
qed

lemma rev_sort_desc: "sorted_wrt (\<lambda>a b. b \<le> a) (rev (sort (xs::score list)))"
  by (simp add: sorted_wrt_rev)

lemma clamp_top_k_code:
  "scores \<noteq> [] \<Longrightarrow> nat (min (max top_k 1) (int (length scores))) = clamp_top_k scores top_k"
  by (cases scores) (auto simp: clamp_top_k_def)

lemma clamp_top_k_range:
  "scores \<noteq> [] \<Longrightarrow> 1 \<le> clamp_top_k scores top_k \<and> clamp_top_k scores top_k \<le> length scores"
  by (cases scores) (auto simp: clamp_top_k_def)

lemma top_k_threshold:
  assumes "scores \<noteq> []"
  shows "np_min (take (clamp_top_k scores top_k) (map score_neg (sort (map score_neg scores))))
         = Inr (kth_highest scores (clamp_top_k scores top_k))"
proof -
  let ?k = "clamp_top_k scores top_k"
  have k: "0 < ?k" "?k \<le> length (rev (sort scores))"
    using clamp_top_k_range[OF assms, of top_k] by auto
  then have "length (take ?k (rev (sort scores))) \<noteq> 0" by simp
  then have "take ?k (rev (sort scores)) \<noteq> []" by (simp only: length_0_conv not_False_eq_True)
  then show ?thesis
    using Min_take_desc[OF rev_sort_desc k]
    by (simp add: sort_desc_via_neg np_min_Min kth_highest_def)
qed

lemma get_top_k_logits_eq:
  assumes "scores \<noteq> []"
  shows "get_top_k_logits scores top_k =
         Inr (map (\<lambda>s. if kth_highest scores (clamp_top_k scores top_k) \<le> s then s else MInf) scores)"
proof -
  have flip: "(\<lambda>s. if s < m then MInf else s) = (\<lambda>s. if m \<le> s then s else MInf)" for m :: score
    by (auto simp: fun_eq_iff)
  show ?thesis
    using top_k_threshold[OF assms, of top_k]
    by (simp add: get_top_k_logits_def clamp_top_k_code[OF assms] flip)
qed

lemma survivors_at_least_k:
  assumes "scores \<noteq> []"
  shows "clamp_top_k scores top_k
         \<le> length (filter (\<lambda>s. kth_highest scores (clamp_top_k scores top_k) \<le> s) scores)"
proof -
  let ?k = "clamp_top_k scores top_k"
  let ?ds = "rev (sort scores)"
  let ?P = "\<lambda>s. kth_highest scores ?k \<le> s"
  have k: "0 < ?k" "?k \<le> length ?ds"
    using clamp_top_k_range[OF assms, of top_k] by auto
  have "\<forall>y \<in> set (take ?k ?ds). ?P y"
  proof
    fix y assume "y \<in> set (take ?k ?ds)"
    then have "Min (set (take ?k ?ds)) \<le> y" by (intro Min_le) simp_all
    then show "?P y"
      using Min_take_desc[OF rev_sort_desc k] by (simp add: kth_highest_def)
  qed
  then have "filter ?P (take ?k ?ds) = take ?k ?ds" by (simp add: filter_id_conv)
  then have "length (filter ?P (take ?k ?ds)) = ?k" using k by simp
  moreover have "length (filter ?P (take ?k ?ds)) \<le> length (filter ?P ?ds)"
  proof -
    have "filter ?P ?ds = filter ?P (take ?k ?ds) @ filter ?P (drop ?k ?ds)"
      by (simp only: filter_append[symmetric] append_take_drop_id)
    then show ?thesis by simp
  qed
  moreover have "length (filter ?P ?ds) = length (filter ?P scores)"
  proof -
    have "mset (filter ?P ?ds) = mset (filter ?P scores)" by simp
    then have "size (mset (filter ?P ?ds)) = size (mset (filter ?P scores))" by (rule arg_cong)
    then show ?thesis by (simp only: size_mset)
  qed
  ultimately show ?thesis by simp
qed

lemma kth_highest_last:
  assumes "scores \<noteq> []"
  shows "kth_highest scores (length scores) = Min (set scores)"
proof -
  have "Min (set (take (length scores) (rev (sort scores)))) = rev (sort scores) ! (length scores - 1)"
    using assms by (intro Min_take_desc[OF rev_sort_desc]) simp_all
  then show ?thesis by (simp add: kth_highest_def)
qed

lemma kth_highest_first:
  assumes "scores \<noteq> []"
  shows "kth_highest scores 1 = Max (set scores)"
proof -
  let ?ds = "rev (sort scores)"
  have len: "0 < length ?ds" using assms by simp
  have "Max (set ?ds) = ?ds ! 0"
  proof (rule Max_eqI)
    show "finite (set ?ds)" by simp
    show "?ds ! 0 \<in> set ?ds" using len by (rule nth_mem)
    fix y assume "y \<in> set ?ds"
    then obtain i where i: "i < length ?ds" "y = ?ds ! i"
      unfolding in_set_conv_nth by blast
    show "y \<le> ?ds ! 0"
    proof (cases "i = 0")
      case True with i show ?thesis by simp
    next
      case False
      then have "0 < i" by simp
      with rev_sort_desc[of scores] i show ?thesis
        by (simp only: sorted_wrt_iff_nth_less)
    qed
  qed
  then show ?thesis by (simp add: kth_highest_def)
qed

text \<open>
  C3. For every non-empty logit row and every \<open>top_k\<close>, the filter clamps \<open>top_k\<close> into the
  range from 1 to the vocabulary size, keeps every entry that is greater than or equal to
  the k-th highest score and replaces every other entry with negative infinity. At least
  \<open>k\<close> entries are kept, and with ties at the k-th highest score more than \<open>k\<close> are: of
  the row 2, 5, 5 the filter with \<open>top_k = 1\<close> keeps both entries 5.
\<close>

theorem get_top_k_logits_inclusive_threshold:
  assumes "scores \<noteq> []"
  shows "1 \<le> clamp_top_k scores top_k \<and> clamp_top_k scores top_k \<le> length scores
       \<and> get_top_k_logits scores top_k =
           Inr (map (\<lambda>s. if kth_highest scores (clamp_top_k scores top_k) \<le> s then s else MInf) scores)
       \<and> clamp_top_k scores top_k
           \<le> length (filter (\<lambda>s. kth_highest scores (clamp_top_k scores top_k) \<le> s) scores)
       \<and> get_top_k_logits [Fin 2, Fin 5, Fin 5] 1 = Inr [MInf, Fin 5, Fin 5]"
proof -
  have "get_top_k_logits [Fin 2, Fin 5, Fin 5] 1 = Inr [MInf, Fin 5, Fin 5]"
    by (simp add: get_top_k_logits_def less_score_def)
  then show ?thesis
    using clamp_top_k_range[OF assms, of top_k] get_top_k_logits_eq[OF assms, of top_k]
      survivors_at_least_k[OF assms, of top_k]
    by (simp only: simp_thms)
qed

theorem get_top_k_logits_inclusive_threshold_witness:
  "[Fin 1, Fin 3, Fin 2, Fin 3, MInf] \<noteq> []
   \<and> clamp_top_k [Fin 1, Fin 3, Fin 2, Fin 3, MInf] 2 = 2
   \<and> kth_highest [Fin 1, Fin 3, Fin 2, Fin 3, MInf] 2 = Fin 3
   \<and> get_top_k_logits [Fin 1, Fin 3, Fin 2, Fin 3, MInf] 2 = Inr [MInf, Fin 3, MInf, Fin 3, MInf]
   \<and> get_top_k_logits [Fin 1, Fin 3, Fin 2, Fin 3, MInf] 3 = Inr [MInf, Fin 3, Fin 2, Fin 3, MInf]
   \<and> get_top_k_logits [Fin 1, Fin 3, Fin 2, Fin 3, MInf] (- 4) = Inr [MInf, Fin 3, MInf, Fin 3, MInf]"
proof -
  have ne: "[Fin 1, Fin 3, Fin 2, Fin 3, MInf] \<noteq> []" by simp
  have k2: "clamp_top_k [Fin 1, Fin 3, Fin 2, Fin 3, MInf] 2 = 2"
    and k3: "clamp_top_k [Fin 1, Fin 3, Fin 2, Fin 3, MInf] 3 = 3"
    and k1: "clamp_top_k [Fin 1, Fin 3, Fin 2, Fin 3, MInf] (- 4) = 1"
    by (simp_all add: clamp_top_k_def)
  have h2: "kth_highest [Fin 1, Fin 3, Fin 2, Fin 3, MInf] 2 = Fin 3"
    and h3: "kth_highest [Fin 1, Fin 3, Fin 2, Fin 3, MInf] 3 = Fin 2"
    and h1: "kth_highest [Fin 1, Fin 3, Fin 2, Fin 3, MInf] (Suc 0) = Fin 3"
    by (simp_all add: kth_highest_def less_score_def)
  show ?thesis
    using get_top_k_logits_inclusive_threshold[OF ne, of 2]
      get_top_k_logits_inclusive_threshold[OF ne, of 3]
      get_top_k_logits_inclusive_threshold[OF ne, of "- 4"]
    by (simp add: k1 k2 k3 h1 h2 h3)
qed

text \<open>
  C7. For every non-empty score row and every \<open>top_k\<close> greater than or equal to the
  vocabulary size, the filter returns the row as it is.
\<close>

theorem get_top_k_logits_full_vocab_identity:
  assumes "scores \<noteq> []" and "int (length scores) \<le> top_k"
  shows "get_top_k_logits scores top_k = Inr scores"
proof -
  have k: "clamp_top_k scores top_k = length scores"
    using assms by (cases scores) (auto simp: clamp_top_k_def)
  have "map (\<lambda>s. if Min (set scores) \<le> s then s else MInf) scores = scores"
    by (rule map_idI) simp
  then show ?thesis
    using get_top_k_logits_eq[OF assms(1), of top_k] kth_highest_last[OF assms(1)]
    by (simp add: k)
qed

theorem get_top_k_logits_full_vocab_identity_witness:
  "get_top_k_logits [Fin 1, MInf, Fin 3, Fin 3] 4 = Inr [Fin 1, MInf, Fin 3, Fin 3]
   \<and> get_top_k_logits [Fin 1, MInf, Fin 3, Fin 3] 20 = Inr [Fin 1, MInf, Fin 3, Fin 3]"
  using get_top_k_logits_full_vocab_identity[of "[Fin 1, MInf, Fin 3, Fin 3]" 4]
    get_top_k_logits_full_vocab_identity[of "[Fin 1, MInf, Fin 3, Fin 3]" 20]
  by simp

section \<open>Properties of sampling with \<open>top_k = 1\<close>\<close>

lemma sum_list_indicator:
  "sum_list (map (\<lambda>s. if P s then 1 else 0) xs) = real (length (filter P xs))"
  by (induction xs) simp_all

lemma top1_filtered:
  assumes "scores \<noteq> []"
  shows "get_top_k_logits scores 1
         = Inr (map (\<lambda>s. if s = Max (set scores) then s else MInf) scores)"
proof -
  have k: "clamp_top_k scores 1 = 1" using assms by (cases scores) (simp_all add: clamp_top_k_def)
  have "map (\<lambda>s. if Max (set scores) \<le> s then s else MInf) scores
        = map (\<lambda>s. if s = Max (set scores) then s else MInf) scores"
  proof (rule map_cong)
    fix s assume "s \<in> set scores"
    then have "s \<le> Max (set scores)" by (intro Max_ge) simp_all
    then show "(if Max (set scores) \<le> s then s else MInf) = (if s = Max (set scores) then s else MInf)"
      by auto
  qed simp
  then show ?thesis
    using get_top_k_logits_eq[OF assms, of 1] kth_highest_first[OF assms] by (simp add: k)
qed

lemma top1_filtered_max:
  assumes "scores \<noteq> []"
  shows "np_max (map (\<lambda>s. if s = Max (set scores) then s else MInf) scores)
         = Inr (Max (set scores))"
proof -
  let ?M = "Max (set scores)"
  let ?f = "map (\<lambda>s. if s = ?M then s else MInf) scores"
  have in_s: "?M \<in> set scores" using assms by (intro Max_in) simp_all
  have "Max (set ?f) = ?M"
  proof (rule Max_eqI)
    show "finite (set ?f)" by simp
    show "?M \<in> set ?f" using in_s by (auto simp: image_iff)
    fix y assume "y \<in> set ?f"
    then show "y \<le> ?M" by (cases ?M) auto
  qed
  moreover have "?f \<noteq> []" using assms by simp
  ultimately show ?thesis using np_max_Max[of ?f] by simp
qed

lemma sample_top_1_iff:
  "sample_top_k scores 1 tok \<longleftrightarrow>
     tok < length scores \<and> scores ! tok = Max (set scores) \<and> (\<exists>c. Max (set scores) = Fin c)"
proof (cases "scores = []")
  case True
  then show ?thesis by (simp add: sample_top_k_def get_top_k_logits_def)
next
  case ne: False
  let ?M = "Max (set scores)"
  let ?f = "map (\<lambda>s. if s = ?M then s else MInf) scores"
  have in_s: "?M \<in> set scores" using ne by (intro Max_in) simp_all
  have s: "sample_top_k scores 1 tok
           = (case softmax ?f of Inl e \<Rightarrow> False | Inr probs \<Rightarrow> can_draw probs tok)"
    by (simp add: sample_top_k_def top1_filtered[OF ne])
  show ?thesis
  proof (cases ?M)
    case (Fin c)
    let ?e = "map (\<lambda>s. if s = ?M then 1 else 0 :: real) scores"
    have e: "map (\<lambda>s. exp_shifted s c) ?f = ?e" using Fin by simp
    have "0 < length (filter (\<lambda>s. s = ?M) scores)"
      using in_s by (simp add: filter_empty_conv)
    then have pos: "0 < sum_list ?e" by (simp only: sum_list_indicator of_nat_0_less_iff)
    have sm: "softmax ?f = Inr (map (\<lambda>e. Pr (e / sum_list ?e)) ?e)"
      using top1_filtered_max[OF ne] Fin e by (simp add: softmax_def Let_def del: map_map)
    have "can_draw (map (\<lambda>e. Pr (e / sum_list ?e)) ?e) tok
          \<longleftrightarrow> tok < length scores \<and> scores ! tok = ?M"
      using pos by (auto simp: can_draw_def zero_less_divide_iff)
    then show ?thesis using s sm Fin by simp
  next
    case MInf
    have "softmax ?f = Inr (replicate (length ?f) NaN)"
      using top1_filtered_max[OF ne] MInf by (simp add: softmax_def del: map_map)
    then show ?thesis using s MInf ne by (simp add: can_draw_def)
  next
    case PInf
    have "softmax ?f = Inr (replicate (length ?f) NaN)"
      using top1_filtered_max[OF ne] PInf by (simp add: softmax_def del: map_map)
    then show ?thesis using s PInf ne by (simp add: can_draw_def)
  qed
qed

text \<open>
  C6, as the code has it. With \<open>top_k = 1\<close> the filter keeps every entry that equals the
  maximal logit, so the token drawn is an index that holds the maximum, and every such
  index can be drawn (the maximum being a number). The token is the arg-max when the
  maximum is held by one index only.
\<close>

theorem sample_top_1_holds_maximum:
  "(sample_top_k scores 1 tok \<longleftrightarrow>
      tok < length scores \<and> scores ! tok = Max (set scores) \<and> (\<exists>c. Max (set scores) = Fin c))
   \<and> (sample_top_k scores 1 tok
       \<and> (\<forall>j<length scores. scores ! j = Max (set scores) \<longrightarrow> j = first_max_index scores)
       \<longrightarrow> np_argmax scores = Inr tok)"
proof (intro conjI impI)
  show "sample_top_k scores 1 tok \<longleftrightarrow>
      tok < length scores \<and> scores ! tok = Max (set scores) \<and> (\<exists>c. Max (set scores) = Fin c)"
    by (rule sample_top_1_iff)
next
  assume a: "sample_top_k scores 1 tok
       \<and> (\<forall>j<length scores. scores ! j = Max (set scores) \<longrightarrow> j = first_max_index scores)"
  then have t: "tok < length scores" "scores ! tok = Max (set scores)"
    by (simp_all add: sample_top_1_iff)
  then have "scores \<noteq> []" by auto
  then have "np_argmax scores = Inr (first_max_index scores)" by (rule np_argmax_first_max)
  with a t show "np_argmax scores = Inr tok" by simp
qed

theorem sample_top_1_holds_maximum_witness:
  "sample_top_k [Fin 1, Fin 3, Fin 2] 1 1
   \<and> np_argmax [Fin 1, Fin 3, Fin 2] = Inr 1
   \<and> \<not> sample_top_k [Fin 1, Fin 3, Fin 2] 1 2"
proof -
  have m: "Max (set [Fin 1, Fin 3, Fin 2]) = Fin 3" by (simp add: less_score_def max_def)
  have f: "first_max_index [Fin 1, Fin 3, Fin 2] = 1" by (simp add: first_max_index_def m)
  have u: "\<forall>j<length [Fin 1, Fin 3, Fin 2]. [Fin 1, Fin 3, Fin 2] ! j = Max (set [Fin 1, Fin 3, Fin 2])
             \<longrightarrow> j = first_max_index [Fin 1, Fin 3, Fin 2]"
    unfolding m f by (auto simp: less_Suc_eq numeral_3_eq_3)
  from sample_top_1_holds_maximum[of "[Fin 1, Fin 3, Fin 2]" 1]
    sample_top_1_holds_maximum[of "[Fin 1, Fin 3, Fin 2]" 2] u m
  show ?thesis by simp
qed

text \<open>
  C6 as stated fails on a tie: of the row 5, 5 the filter keeps both entries, each gets
  probability one half, and token 1 can be drawn although the arg-max is 0.
\<close>

theorem sample_top_1_counterexample:
  "sample_top_k [Fin 5, Fin 5] 1 1 \<and> sample_top_k [Fin 5, Fin 5] 1 0
   \<and> np_argmax [Fin 5, Fin 5] = Inr 0"
  by (simp add: sample_top_k_def get_top_k_logits_def softmax_def can_draw_def np_argmax_def
      less_score_def)

section \<open>Properties of softmax\<close>





section \<open>Properties of the generation loop\<close>

lemma sample_token_state:
  "snd (sample_token cm rnd maxl eos dyn st) = st\<lparr>calls := Suc (calls st)\<rparr>"
  by (simp add: sample_token_def call_engine_def Let_def split: prod.splits)

lemma sample_token_eq:
  "sample_token cm rnd maxl eos dyn st
   = (next_tokens cm rnd maxl eos dyn st, st\<lparr>calls := Suc (calls st)\<rparr>)"
  using sample_token_state[of cm rnd maxl eos dyn st]
  by (simp add: next_tokens_def prod_eq_iff)

lemma loop_body_eq:
  "loop_body cm rnd maxl eos dyn st =
     (case next_tokens cm rnd maxl eos dyn st of
        Inl e \<Rightarrow> Stop (Raised e) (st\<lparr>calls := Suc (calls st)\<rparr>)
      | Inr tok \<Rightarrow>
          if int (length (input_ids st)) = maxl \<or> int tok = eos
          then Stop (Returned (input_ids st)) (st\<lparr>calls := Suc (calls st)\<rparr>)
          else Continue (st\<lparr>input_ids := input_ids st @ [int tok],
                            attention_mask := attention_mask st @ [1],
                            calls := Suc (calls st)\<rparr>))"
  by (simp add: loop_body_def sample_token_eq split: sum.splits)

lemma loop_body_Continue:
  assumes "loop_body cm rnd maxl eos dyn st = Continue st'"
  shows "\<exists>tok. next_tokens cm rnd maxl eos dyn st = Inr tok
           \<and> int (length (input_ids st)) \<noteq> maxl \<and> int tok \<noteq> eos
           \<and> st' = st\<lparr>input_ids := input_ids st @ [int tok],
                       attention_mask := attention_mask st @ [1],
                       calls := Suc (calls st)\<rparr>"
  using assms by (auto simp: loop_body_eq split: sum.splits if_splits)

lemma loop_body_Stop:
  assumes "loop_body cm rnd maxl eos dyn st = Stop out fin"
  shows "fin = st\<lparr>calls := Suc (calls st)\<rparr> \<and> (\<forall>ids. out = Returned ids \<longrightarrow> ids = input_ids st)"
  using assms by (auto simp: loop_body_eq split: sum.splits if_splits)

lemma loop_body_at_max:
  assumes "int (length (input_ids st)) = maxl"
  shows "loop_body cm rnd maxl eos dyn st =
           Stop (case next_tokens cm rnd maxl eos dyn st of
                   Inl e \<Rightarrow> Raised e
                 | Inr tok \<Rightarrow> Returned (input_ids st))
                (st\<lparr>calls := Suc (calls st)\<rparr>)"
  using assms by (simp add: loop_body_eq split: sum.splits)

lemma generate_loop_Stop:
  assumes "loop_body cm rnd maxl eos dyn st = Stop out fin"
  shows "generate_loop cm rnd maxl eos dyn st = Some (out, fin)"
  by (subst generate_loop.simps) (simp add: assms)

lemma generate_loop_Continue:
  assumes "loop_body cm rnd maxl eos dyn st = Continue st'"
  shows "generate_loop cm rnd maxl eos dyn st = generate_loop cm rnd maxl eos dyn st'"
  by (subst generate_loop.simps) (simp add: assms)

text \<open>
  What every finished run looks like: the last state holds the start tokens followed by
  the tokens appended on the way, none of them the end marker, the mask has grown by as
  many ones, and the loop was entered once more than it appended.
\<close>

lemma generate_loop_run:
  assumes "generate_loop cm rnd maxl eos dyn st = Some (out, fin)"
  shows "\<exists>gen. input_ids fin = input_ids st @ gen
             \<and> attention_mask fin = attention_mask st @ replicate (length gen) 1
             \<and> calls fin = calls st + length gen + 1
             \<and> eos \<notin> set gen
             \<and> (\<forall>ids. out = Returned ids \<longrightarrow> ids = input_ids fin)"
proof -
  define P where "P = (\<lambda>(eos::int) (st::gen_state) (y::outcome \<times> gen_state).
     \<exists>gen. input_ids (snd y) = input_ids st @ gen
         \<and> attention_mask (snd y) = attention_mask st @ replicate (length gen) 1
         \<and> calls (snd y) = calls st + length gen + 1
         \<and> eos \<notin> set gen
         \<and> (\<forall>ids. fst y = Returned ids \<longrightarrow> ids = input_ids (snd y)))"
  have "P eos st (out, fin)"
  proof (rule generate_loop.raw_induct[where P = "\<lambda>cm rnd maxl eos dyn st y. P eos st y", OF _ assms])
    fix loop cm rnd maxl eos dyn st y
    assume IH: "\<And>cm rnd maxl eos dyn st y. loop cm rnd maxl eos dyn st = Some y \<Longrightarrow> P eos st y"
      and body: "(case loop_body cm rnd maxl eos dyn st of
                    Stop out fin \<Rightarrow> Some (out, fin)
                  | Continue st' \<Rightarrow> loop cm rnd maxl eos dyn st') = Some y"
    show "P eos st y"
    proof (cases "loop_body cm rnd maxl eos dyn st")
      case (Stop o1 f1)
      with body have y: "y = (o1, f1)" by simp
      show ?thesis
        unfolding P_def using loop_body_Stop[OF Stop] y
        by (intro exI[of _ "[]"]) auto
    next
      case (Continue st')
      from loop_body_Continue[OF Continue] obtain tok where
        tok: "int tok \<noteq> eos" and
        st': "st' = st\<lparr>input_ids := input_ids st @ [int tok],
                       attention_mask := attention_mask st @ [1],
                       calls := Suc (calls st)\<rparr>" by blast
      from body Continue have "loop cm rnd maxl eos dyn st' = Some y" by simp
      from IH[OF this] obtain gen where g: "input_ids (snd y) = input_ids st' @ gen"
          "attention_mask (snd y) = attention_mask st' @ replicate (length gen) 1"
          "calls (snd y) = calls st' + length gen + 1" "eos \<notin> set gen"
          "\<forall>ids. fst y = Returned ids \<longrightarrow> ids = input_ids (snd y)"
        unfolding P_def by blast
      show ?thesis
        unfolding P_def using g tok st'
        by (intro exI[of _ "int tok # gen"]) (simp add: replicate_append_same[symmetric])
    qed
  qed
  then show ?thesis by (simp add: P_def)
qed

lemma generate_loop_terminates:
  assumes "int (length (input_ids st)) \<le> maxl"
  shows "\<exists>out fin. generate_loop cm rnd maxl eos dyn st = Some (out, fin)
           \<and> int (length (input_ids fin)) \<le> maxl"
  using assms
proof (induction "nat (maxl - int (length (input_ids st)))" arbitrary: st)
  case 0
  then have "int (length (input_ids st)) = maxl" by simp
  then obtain out fin where s: "loop_body cm rnd maxl eos dyn st = Stop out fin"
    using loop_body_at_max by blast
  from generate_loop_Stop[OF s] loop_body_Stop[OF s] 0 show ?case by simp
next
  case (Suc n)
  show ?case
  proof (cases "loop_body cm rnd maxl eos dyn st")
    case (Stop out fin)
    from generate_loop_Stop[OF Stop] loop_body_Stop[OF Stop] Suc.prems show ?thesis by simp
  next
    case (Continue st')
    from loop_body_Continue[OF Continue] obtain tok where
      st': "st' = st\<lparr>input_ids := input_ids st @ [int tok],
                     attention_mask := attention_mask st @ [1],
                     calls := Suc (calls st)\<rparr>" by blast
    have "n = nat (maxl - int (length (input_ids st')))"
      using Suc.hyps(2) st' by simp
    moreover have "int (length (input_ids st')) \<le> maxl"
      using Suc.hyps(2) st' by simp
    ultimately obtain out fin where
      "generate_loop cm rnd maxl eos dyn st' = Some (out, fin)"
      "int (length (input_ids fin)) \<le> maxl"
      using Suc.hyps(1) by blast
    then show ?thesis using generate_loop_Continue[OF Continue] by simp
  qed
qed

lemma reaches_run:
  assumes "reaches cm rnd maxl eos dyn st st'"
  shows "\<exists>gen. input_ids st' = input_ids st @ gen
             \<and> attention_mask st' = attention_mask st @ replicate (length gen) 1
             \<and> calls st' = calls st + length gen
             \<and> eos \<notin> set gen"
  using assms
proof (induction rule: reaches.induct)
  case (reaches_start st)
  show ?case by (intro exI[of _ "[]"]) simp
next
  case (reaches_step st st' st'')
  then obtain gen where g: "input_ids st' = input_ids st @ gen"
    "attention_mask st' = attention_mask st @ replicate (length gen) 1"
    "calls st' = calls st + length gen" "eos \<notin> set gen" by blast
  from loop_body_Continue[OF reaches_step(2)] obtain tok where
    tok: "int tok \<noteq> eos" and
    st'': "st'' = st'\<lparr>input_ids := input_ids st' @ [int tok],
                     attention_mask := attention_mask st' @ [1],
                     calls := Suc (calls st')\<rparr>" by blast
  show ?case
    using g tok st'' by (intro exI[of _ "gen @ [int tok]"]) (simp add: replicate_append_same)
qed

lemma mask_parallel_append:
  assumes "mask_parallel st"
    and "input_ids st' = input_ids st @ gen"
    and "attention_mask st' = attention_mask st @ replicate (length gen) 1"
  shows "mask_parallel st'"
  using assms by (auto simp: mask_parallel_def list_all_iff)

lemma norm_index_last: "0 < n \<Longrightarrow> norm_index n (int n - 1) = Inr (n - 1)"
  by (auto simp: norm_index_def nat_diff_distrib')

lemma flat_engine_next_tokens:
  assumes "0 < length (input_ids st)"
  shows "next_tokens flat_engine (scripted draws) maxl eos True st
         = Inr (if calls st < length draws then draws ! calls st else 0)"
proof -
  have "get_top_k_logits [Fin 0, Fin 0, Fin 0] 20 = Inr [Fin 0, Fin 0, Fin 0]"
    by (simp add: get_top_k_logits_def less_score_def)
  moreover have "softmax [Fin 0, Fin 0, Fin 0] = Inr [Pr (1 / 3), Pr (1 / 3), Pr (1 / 3)]"
    by (simp add: softmax_def)
  moreover have "py_index (replicate (length (input_ids st)) [Fin 0, Fin 0, Fin 0])
                   (int (length (input_ids st)) - 1) = Inr [Fin 0, Fin 0, Fin 0]"
    using assms by (simp add: py_index_def norm_index_last)
  ultimately show ?thesis
    by (simp add: next_tokens_def sample_token_def model_inputs_def call_engine_def
        flat_engine_def process_logits_def np_random_choice_def scripted_def)
qed

lemma flat_engine_runs_on:
  assumes "1 < length (input_ids st)"
  shows "loop_body flat_engine (scripted []) 1 2 True st
         = Continue (st\<lparr>input_ids := input_ids st @ [0],
                        attention_mask := attention_mask st @ [1],
                        calls := Suc (calls st)\<rparr>)"
proof -
  from assms have "0 < length (input_ids st)" by arith
  from flat_engine_next_tokens[OF this, of "[]" 1 2] assms show ?thesis
    by (simp add: loop_body_eq)
qed

lemma flat_engine_never_returns:
  assumes "1 < length (input_ids st)"
  shows "generate_loop flat_engine (scripted []) 1 2 True st = None"
proof (cases "generate_loop flat_engine (scripted []) 1 2 True st")
  case None
  then show ?thesis .
next
  case (Some y)
  define Q where "Q = (\<lambda>(cm::engine) (rnd::random_source) (maxl::int) (eos::int) (dyn::bool)
      (st::gen_state). cm = flat_engine \<and> rnd = scripted [] \<and> maxl = 1 \<and> eos = 2 \<and> dyn
         \<and> 1 < length (input_ids st))"
  have "\<not> Q flat_engine (scripted []) 1 2 True st"
  proof (rule generate_loop.raw_induct[where
        P = "\<lambda>cm rnd maxl eos dyn st y. \<not> Q cm rnd maxl eos dyn st", OF _ Some])
    fix loop cm rnd maxl eos dyn st y
    assume IH: "\<And>cm rnd maxl eos dyn st y. loop cm rnd maxl eos dyn st = Some y
                  \<Longrightarrow> \<not> Q cm rnd maxl eos dyn st"
      and body: "(case loop_body cm rnd maxl eos dyn st of
                    Stop out fin \<Rightarrow> Some (out, fin)
                  | Continue st' \<Rightarrow> loop cm rnd maxl eos dyn st') = Some (y::outcome \<times> gen_state)"
    show "\<not> Q cm rnd maxl eos dyn st"
    proof
      assume q: "Q cm rnd maxl eos dyn st"
      then have long: "1 < length (input_ids st)" and
        eq: "cm = flat_engine" "rnd = scripted []" "maxl = 1" "eos = 2" "dyn = True"
        by (simp_all add: Q_def)
      let ?st' = "st\<lparr>input_ids := input_ids st @ [0],
                        attention_mask := attention_mask st @ [1],
                        calls := Suc (calls st)\<rparr>"
      from body flat_engine_runs_on[OF long] have "loop cm rnd maxl eos dyn ?st' = Some y"
        by (simp add: eq)
      from IH[OF this] have "\<not> Q cm rnd maxl eos dyn ?st'" .
      moreover have "Q cm rnd maxl eos dyn ?st'" using q by (auto simp: Q_def)
      ultimately show False by contradiction
    qed
  qed
  then show ?thesis using assms by (simp add: Q_def)
qed

text \<open>
  C1. When the token just drawn is the end marker, the loop stops and returns the token
  row as it stands, without that token. Whatever a run of \<open>generate_sequence\<close> returns is
  the prompt followed by the tokens appended in the earlier iterations, and the end marker
  is not among them.
\<close>

theorem generate_sequence_eos_not_appended:
  "(\<forall>tok. next_tokens cm rnd maxl eos dyn st = Inr tok \<and> int tok = eos \<longrightarrow>
      generate_loop cm rnd maxl eos dyn st
        = Some (Returned (input_ids st), st\<lparr>calls := Suc (calls st)\<rparr>))
   \<and> (\<forall>ids. generate_sequence cm rnd prompt msk maxl eos dyn = Some (Returned ids) \<longrightarrow>
         (\<exists>gen. ids = prompt @ gen \<and> eos \<notin> set gen))"
proof (intro conjI allI impI)
  fix tok assume "next_tokens cm rnd maxl eos dyn st = Inr tok \<and> int tok = eos"
  then have "loop_body cm rnd maxl eos dyn st
             = Stop (Returned (input_ids st)) (st\<lparr>calls := Suc (calls st)\<rparr>)"
    by (simp add: loop_body_eq)
  then show "generate_loop cm rnd maxl eos dyn st
        = Some (Returned (input_ids st), st\<lparr>calls := Suc (calls st)\<rparr>)"
    by (rule generate_loop_Stop)
next
  fix ids assume "generate_sequence cm rnd prompt msk maxl eos dyn = Some (Returned ids)"
  then obtain fin where
    "generate_loop cm rnd maxl eos dyn \<lparr>input_ids = prompt, attention_mask = msk, calls = 0\<rparr>
       = Some (Returned ids, fin)"
    by (auto simp: generate_sequence_def)
  from generate_loop_run[OF this] show "\<exists>gen. ids = prompt @ gen \<and> eos \<notin> set gen"
    by auto
qed

theorem generate_sequence_eos_not_appended_witness:
  "generate_sequence flat_engine (scripted [1, 1, 2]) [7, 8] [1, 1] 10 2 True
     = Some (Returned [7, 8, 1, 1])
   \<and> (\<exists>gen. [7, 8, 1, 1] = [7, 8] @ gen \<and> (2::int) \<notin> set gen)
   \<and> generate_loop flat_engine (scripted [1, 1, 2]) 10 2 True
       \<lparr>input_ids = [7, 8, 1, 1], attention_mask = [1, 1, 1, 1], calls = 2\<rparr>
     = Some (Returned [7, 8, 1, 1],
             \<lparr>input_ids = [7, 8, 1, 1], attention_mask = [1, 1, 1, 1], calls = 3\<rparr>)"
proof -
  have run: "generate_sequence flat_engine (scripted [1, 1, 2]) [7, 8] [1, 1] 10 2 True
     = Some (Returned [7, 8, 1, 1])"
    by (simp add: generate_sequence_def generate_loop.simps loop_body_eq
        flat_engine_next_tokens scripted_def)
  have last: "next_tokens flat_engine (scripted [1, 1, 2]) 10 2 True
        \<lparr>input_ids = [7, 8, 1, 1], attention_mask = [1, 1, 1, 1], calls = 2\<rparr> = Inr 2
      \<and> int 2 = 2"
    by (simp add: flat_engine_next_tokens)
  note inst = generate_sequence_eos_not_appended[of flat_engine "scripted [1, 1, 2]" 10 2 True
      "\<lparr>input_ids = [7, 8, 1, 1], attention_mask = [1, 1, 1, 1], calls = 2\<rparr>" "[7, 8]" "[1, 1]"]
  from inst run last show ?thesis by simp
qed

lemma model_inputs_at_max:
  assumes "int (length (input_ids st)) = maxl"
  shows "model_inputs maxl eos dyn st = (input_ids st, attention_mask st)"
  using assms by (simp add: model_inputs_def)

lemma next_tokens_engine_fails:
  assumes "model_inputs maxl eos dyn st = (ids, msk)" and "cm ids msk = Inl e"
  shows "next_tokens cm rnd maxl eos dyn st = Inl e"
  using assms by (simp add: next_tokens_def sample_token_def call_engine_def)

lemma next_tokens_engine_cong:
  assumes "model_inputs maxl eos dyn st = (ids, msk)" and "cm' ids msk = cm ids msk"
  shows "next_tokens cm' rnd maxl eos dyn st = next_tokens cm rnd maxl eos dyn st"
  using assms by (simp add: next_tokens_def sample_token_def call_engine_def)

text \<open>
  C4. With the maximum length equal to the length of the prompt the loop runs exactly one
  iteration, which calls the engine exactly once, on the prompt and its mask, and then
  stops: it returns the prompt unchanged, unless that one call or the sampling after it
  raises. The call is made before the length is tested: when the engine raises on the
  prompt the run raises, and the outcome depends on the engine through this one call only.
\<close>

theorem generate_sequence_prompt_at_max_length:
  "generate_loop cm rnd (int (length prompt)) eos dyn
       \<lparr>input_ids = prompt, attention_mask = msk, calls = 0\<rparr>
     = Some (case next_tokens cm rnd (int (length prompt)) eos dyn
                    \<lparr>input_ids = prompt, attention_mask = msk, calls = 0\<rparr> of
               Inl e \<Rightarrow> Raised e
             | Inr tok \<Rightarrow> Returned prompt,
             \<lparr>input_ids = prompt, attention_mask = msk, calls = 1\<rparr>)
   \<and> generate_sequence cm rnd prompt msk (int (length prompt)) eos dyn
     = Some (case next_tokens cm rnd (int (length prompt)) eos dyn
                    \<lparr>input_ids = prompt, attention_mask = msk, calls = 0\<rparr> of
               Inl e \<Rightarrow> Raised e
             | Inr tok \<Rightarrow> Returned prompt)
   \<and> sample_token cm rnd (int (length prompt)) eos dyn
       \<lparr>input_ids = prompt, attention_mask = msk, calls = 0\<rparr>
     = (next_tokens cm rnd (int (length prompt)) eos dyn
          \<lparr>input_ids = prompt, attention_mask = msk, calls = 0\<rparr>,
        snd (call_engine cm prompt msk \<lparr>input_ids = prompt, attention_mask = msk, calls = 0\<rparr>))
   \<and> (\<forall>e. cm prompt msk = Inl e \<longrightarrow>
          generate_sequence cm rnd prompt msk (int (length prompt)) eos dyn = Some (Raised e))
   \<and> (\<forall>cm'. cm' prompt msk = cm prompt msk \<longrightarrow>
          generate_sequence cm' rnd prompt msk (int (length prompt)) eos dyn
          = generate_sequence cm rnd prompt msk (int (length prompt)) eos dyn)"
proof -
  let ?st = "\<lparr>input_ids = prompt, attention_mask = msk, calls = 0\<rparr>"
  let ?n = "int (length prompt)"
  have len: "int (length (input_ids ?st)) = ?n" by simp
  have mi: "model_inputs ?n eos dyn ?st = (prompt, msk)"
    using model_inputs_at_max[OF len, of eos dyn] by simp
  have run: "generate_loop c rnd ?n eos dyn ?st
     = Some (case next_tokens c rnd ?n eos dyn ?st of
               Inl e \<Rightarrow> Raised e
             | Inr tok \<Rightarrow> Returned prompt,
             \<lparr>input_ids = prompt, attention_mask = msk, calls = 1\<rparr>)" for c
    using generate_loop_Stop[OF loop_body_at_max[OF len, of c rnd eos dyn]]
    by (simp cong: sum.case_cong)
  have seq: "generate_sequence c rnd prompt msk ?n eos dyn
     = Some (case next_tokens c rnd ?n eos dyn ?st of
               Inl e \<Rightarrow> Raised e
             | Inr tok \<Rightarrow> Returned prompt)" for c
    using run[of c] by (simp add: generate_sequence_def)
  have st: "sample_token cm rnd ?n eos dyn ?st
     = (next_tokens cm rnd ?n eos dyn ?st, snd (call_engine cm prompt msk ?st))"
    by (simp add: sample_token_eq call_engine_def)
  have fails: "\<forall>e. cm prompt msk = Inl e \<longrightarrow>
          generate_sequence cm rnd prompt msk ?n eos dyn = Some (Raised e)"
  proof (intro allI impI)
    fix e assume "cm prompt msk = Inl e"
    from next_tokens_engine_fails[where cm = cm and rnd = rnd, OF mi this]
    show "generate_sequence cm rnd prompt msk ?n eos dyn = Some (Raised e)"
      by (simp add: seq)
  qed
  have cong: "\<forall>cm'. cm' prompt msk = cm prompt msk \<longrightarrow>
          generate_sequence cm' rnd prompt msk ?n eos dyn
          = generate_sequence cm rnd prompt msk ?n eos dyn"
  proof (intro allI impI)
    fix cm' :: engine assume "cm' prompt msk = cm prompt msk"
    from next_tokens_engine_cong[where cm = cm and cm' = cm' and rnd = rnd, OF mi this]
    show "generate_sequence cm' rnd prompt msk ?n eos dyn
          = generate_sequence cm rnd prompt msk ?n eos dyn"
      by (simp only: seq)
  qed
  from run[of cm] seq[of cm] st fails cong show ?thesis by (intro conjI)
qed

theorem generate_sequence_prompt_at_max_length_witness:
  "generate_sequence flat_engine (scripted [1]) [10] [1] 1 50256 True = Some (Returned [10])
   \<and> generate_loop flat_engine (scripted [1]) 1 50256 True
       \<lparr>input_ids = [10], attention_mask = [1], calls = 0\<rparr>
     = Some (Returned [10], \<lparr>input_ids = [10], attention_mask = [1], calls = 1\<rparr>)
   \<and> generate_sequence (\<lambda>ids msk. Inl EngineFailure) (scripted [1]) [10] [1] 1 50256 True
     = Some (Raised EngineFailure)"
proof -
  have ok: "generate_sequence flat_engine (scripted [1]) [10] [1] 1 50256 True = Some (Returned [10])
   \<and> generate_loop flat_engine (scripted [1]) 1 50256 True
       \<lparr>input_ids = [10], attention_mask = [1], calls = 0\<rparr>
     = Some (Returned [10], \<lparr>input_ids = [10], attention_mask = [1], calls = 1\<rparr>)"
    using generate_sequence_prompt_at_max_length[of flat_engine "scripted [1]" "[10]" 50256 True "[1]"]
    by (simp add: flat_engine_next_tokens)
  have f: "(\<lambda>ids msk. Inl EngineFailure :: py_error + score list list) [10] [1] = Inl EngineFailure"
    by simp
  note inst = generate_sequence_prompt_at_max_length[of "\<lambda>ids msk. Inl EngineFailure"
      "scripted [1]" "[10]" 50256 True "[1]"]
  from inst have "\<forall>e. (\<lambda>ids msk. Inl EngineFailure :: py_error + score list list) [10] [1] = Inl e \<longrightarrow>
      generate_sequence (\<lambda>ids msk. Inl EngineFailure) (scripted [1]) [10] [1]
        (int (length [10::int])) 50256 True = Some (Raised e)"
    by (elim conjE)
  from this[rule_format, OF f]
  have bad: "generate_sequence (\<lambda>ids msk. Inl EngineFailure) (scripted [1]) [10] [1] 1 50256 True
     = Some (Raised EngineFailure)"
    by simp
  from ok bad show ?thesis by simp
qed

text \<open>
  C9. If the mask is parallel to the token row when the loop starts, it is parallel in
  every state the run passes through and in the last one. Each state holds the start
  tokens followed by one appended token per iteration made, and the start mask followed by
  as many ones; an iteration that continues appends exactly one token and the mask entry 1.
\<close>

theorem attention_mask_parallel_invariant:
  assumes "mask_parallel st" and "reaches cm rnd maxl eos dyn st st'"
  shows "mask_parallel st'
       \<and> (\<exists>gen. input_ids st' = input_ids st @ gen
              \<and> attention_mask st' = attention_mask st @ replicate (length gen) 1
              \<and> calls st' = calls st + length gen)
       \<and> (\<forall>st''. loop_body cm rnd maxl eos dyn st' = Continue st'' \<longrightarrow>
              (\<exists>tok. input_ids st'' = input_ids st' @ [tok])
            \<and> attention_mask st'' = attention_mask st' @ [1]
            \<and> mask_parallel st'')
       \<and> (\<forall>out fin. generate_loop cm rnd maxl eos dyn st' = Some (out, fin) \<longrightarrow>
              mask_parallel fin
            \<and> (\<exists>gen. input_ids fin = input_ids st' @ gen
                   \<and> attention_mask fin = attention_mask st' @ replicate (length gen) 1))"
proof -
  from reaches_run[OF assms(2)] obtain gen where g:
    "input_ids st' = input_ids st @ gen"
    "attention_mask st' = attention_mask st @ replicate (length gen) 1"
    "calls st' = calls st + length gen" by blast
  from mask_parallel_append[OF assms(1) g(1,2)] have p: "mask_parallel st'" .
  have step: "(\<exists>tok. input_ids st'' = input_ids st' @ [tok])
            \<and> attention_mask st'' = attention_mask st' @ [1]
            \<and> mask_parallel st''"
    if "loop_body cm rnd maxl eos dyn st' = Continue st''" for st''
  proof -
    from loop_body_Continue[OF that] obtain tok where
      s: "st'' = st'\<lparr>input_ids := input_ids st' @ [int tok],
                     attention_mask := attention_mask st' @ [1],
                     calls := Suc (calls st')\<rparr>" by blast
    then have "mask_parallel st''"
      using mask_parallel_append[OF p, of st'' "[int tok]"] by simp
    with s show ?thesis by simp
  qed
  have fin: "mask_parallel fin
            \<and> (\<exists>gen. input_ids fin = input_ids st' @ gen
                   \<and> attention_mask fin = attention_mask st' @ replicate (length gen) 1)"
    if "generate_loop cm rnd maxl eos dyn st' = Some (out, fin)" for out fin
  proof -
    from generate_loop_run[OF that] obtain gen' where g':
      "input_ids fin = input_ids st' @ gen'"
      "attention_mask fin = attention_mask st' @ replicate (length gen') 1" by blast
    from mask_parallel_append[OF p g'] g' show ?thesis by blast
  qed
  from p g step fin show ?thesis by blast
qed

theorem attention_mask_parallel_invariant_witness:
  "mask_parallel \<lparr>input_ids = [7, 8], attention_mask = [1, 1], calls = 0\<rparr>
   \<and> reaches flat_engine (scripted [1, 1, 2]) 10 2 True
       \<lparr>input_ids = [7, 8], attention_mask = [1, 1], calls = 0\<rparr>
       \<lparr>input_ids = [7, 8, 1], attention_mask = [1, 1, 1], calls = 1\<rparr>
   \<and> mask_parallel \<lparr>input_ids = [7, 8, 1], attention_mask = [1, 1, 1], calls = 1\<rparr>
   \<and> loop_body flat_engine (scripted [1, 1, 2]) 10 2 True
       \<lparr>input_ids = [7, 8, 1], attention_mask = [1, 1, 1], calls = 1\<rparr>
     = Continue \<lparr>input_ids = [7, 8, 1, 1], attention_mask = [1, 1, 1, 1], calls = 2\<rparr>
   \<and> mask_parallel \<lparr>input_ids = [7, 8, 1, 1], attention_mask = [1, 1, 1, 1], calls = 2\<rparr>"
proof -
  let ?s0 = "\<lparr>input_ids = [7, 8], attention_mask = [1, 1], calls = 0\<rparr>"
  let ?s1 = "\<lparr>input_ids = [7, 8, 1], attention_mask = [1, 1, 1], calls = 1\<rparr>"
  let ?s2 = "\<lparr>input_ids = [7, 8, 1, 1], attention_mask = [1, 1, 1, 1], calls = 2\<rparr>"
  have m: "mask_parallel ?s0" by (simp add: mask_parallel_def)
  have b0: "loop_body flat_engine (scripted [1, 1, 2]) 10 2 True ?s0 = Continue ?s1"
    by (simp add: loop_body_eq flat_engine_next_tokens)
  have b1: "loop_body flat_engine (scripted [1, 1, 2]) 10 2 True ?s1 = Continue ?s2"
    by (simp add: loop_body_eq flat_engine_next_tokens)
  have r: "reaches flat_engine (scripted [1, 1, 2]) 10 2 True ?s0 ?s1"
    using reaches_step[OF reaches_start b0] .
  from attention_mask_parallel_invariant[OF m r] m r b1 show ?thesis by simp
qed

text \<open>
  C10. From a prompt that is not longer than the maximum length the loop ends: it enters at
  most \<open>max_sequence_length - len(prompt) + 1\<close> iterations, and a returned sequence is not
  longer than the maximum length. The length test is an equality, so a longer prompt is
  not covered: from a prompt of two tokens with maximum length 1, and an end marker that is
  never drawn, the loop does not return.
\<close>

theorem generate_sequence_terminates_within_bound:
  assumes "int (length prompt) \<le> maxl"
  shows "(\<exists>out fin.
            generate_loop cm rnd maxl eos dyn \<lparr>input_ids = prompt, attention_mask = msk, calls = 0\<rparr>
              = Some (out, fin)
          \<and> generate_sequence cm rnd prompt msk maxl eos dyn = Some out
          \<and> int (calls fin) \<le> maxl - int (length prompt) + 1
          \<and> (\<forall>ids. out = Returned ids \<longrightarrow> int (length ids) \<le> maxl))
       \<and> generate_sequence flat_engine (scripted []) [3, 4] [1, 1] 1 2 True = None"
proof -
  let ?st = "\<lparr>input_ids = prompt, attention_mask = msk, calls = 0\<rparr>"
  have "int (length (input_ids ?st)) \<le> maxl" using assms by simp
  from generate_loop_terminates[OF this] obtain out fin where
    run: "generate_loop cm rnd maxl eos dyn ?st = Some (out, fin)" and
    len: "int (length (input_ids fin)) \<le> maxl" by blast
  from generate_loop_run[OF run] obtain gen where g:
    "input_ids fin = prompt @ gen" "calls fin = length gen + 1"
    "\<forall>ids. out = Returned ids \<longrightarrow> ids = input_ids fin" by auto
  have "int (calls fin) \<le> maxl - int (length prompt) + 1" using g(1,2) len by simp
  moreover have "\<forall>ids. out = Returned ids \<longrightarrow> int (length ids) \<le> maxl" using g(3) len by auto
  moreover have "generate_sequence cm rnd prompt msk maxl eos dyn = Some out"
    using run by (simp add: generate_sequence_def)
  moreover have "generate_sequence flat_engine (scripted []) [3, 4] [1, 1] 1 2 True = None"
    using flat_engine_never_returns[of "\<lparr>input_ids = [3, 4], attention_mask = [1, 1], calls = 0\<rparr>"]
    by (simp add: generate_sequence_def)
  ultimately show ?thesis using run by blast
qed

theorem generate_sequence_terminates_within_bound_witness:
  "int (length [7, 8 :: int]) \<le> 4
   \<and> generate_loop flat_engine (scripted [1, 1, 1, 1]) 4 2 True
       \<lparr>input_ids = [7, 8], attention_mask = [1, 1], calls = 0\<rparr>
     = Some (Returned [7, 8, 1, 1],
             \<lparr>input_ids = [7, 8, 1, 1], attention_mask = [1, 1, 1, 1], calls = 3\<rparr>)
   \<and> (\<exists>out fin.
         generate_loop flat_engine (scripted [1, 1, 1, 1]) 4 2 True
           \<lparr>input_ids = [7, 8], attention_mask = [1, 1], calls = 0\<rparr> = Some (out, fin)
       \<and> int (calls fin) \<le> 4 - int (length [7, 8 :: int]) + 1
       \<and> (\<forall>ids. out = Returned ids \<longrightarrow> int (length ids) \<le> 4))"
proof -
  have h: "int (length [7, 8 :: int]) \<le> 4" by simp
  have run: "generate_loop flat_engine (scripted [1, 1, 1, 1]) 4 2 True
       \<lparr>input_ids = [7, 8], attention_mask = [1, 1], calls = 0\<rparr>
     = Some (Returned [7, 8, 1, 1],
             \<lparr>input_ids = [7, 8, 1, 1], attention_mask = [1, 1, 1, 1], calls = 3\<rparr>)"
    by (simp add: generate_loop.simps loop_body_eq flat_engine_next_tokens)
  from generate_sequence_terminates_within_bound[OF h, of flat_engine "scripted [1, 1, 1, 1]" 2 True "[1, 1]"]
  have "\<exists>out fin.
         generate_loop flat_engine (scripted [1, 1, 1, 1]) 4 2 True
           \<lparr>input_ids = [7, 8], attention_mask = [1, 1], calls = 0\<rparr> = Some (out, fin)
       \<and> int (calls fin) \<le> 4 - int (length [7, 8 :: int]) + 1
       \<and> (\<forall>ids. out = Returned ids \<longrightarrow> int (length ids) \<le> 4)"
    by blast
  with h run show ?thesis by blast
qed

section \<open>Properties of the greedy CTC decoder\<close>

lemma argmax_axis1_eq:
  assumes "\<forall>row\<in>set predictions. row \<noteq> []"
  shows "argmax_axis1 predictions = Inr (map first_max_index predictions)"
  using assms by (induction predictions) (simp_all add: np_argmax_first_max)

lemma predictions_indexes_eq:
  assumes "length predictions \<noteq> 1" and "\<forall>row\<in>set predictions. 2 \<le> length row"
  shows "predictions_indexes predictions = Inr (map first_max_index predictions)"
proof -
  have "\<not> list_ex (\<lambda>row. length row = 1) predictions"
    using assms(2) by (auto simp: list_ex_iff)
  then have "np_squeeze predictions = Some predictions"
    using assms(1) by (simp add: np_squeeze_def)
  moreover have "\<forall>row\<in>set predictions. row \<noteq> []" using assms(2) by auto
  ultimately show ?thesis by (simp add: predictions_indexes_def argmax_axis1_eq)
qed

lemma groupby_run_remdups_adj: "remdups_adj (k # xs) = k # groupby_run k xs"
  by (induction xs arbitrary: k) simp_all

lemma groupby_keys_remdups_adj: "groupby_keys xs = remdups_adj xs"
proof (cases xs)
  case Nil
  then show ?thesis by simp
next
  case (Cons k ys)
  then show ?thesis by (simp only: groupby_keys.simps groupby_run_remdups_adj)
qed

lemma output_text_indexes_eq:
  assumes "indexes \<noteq> []"
  shows "output_text_indexes indexes = Inr (filter (\<lambda>i. i \<noteq> 0) (remdups_adj indexes))"
  using assms by (simp add: output_text_indexes_def groupby_keys_remdups_adj)

lemma py_index_nat:
  "py_index xs (int i) = (if i < length xs then Inr (xs ! i) else Inl IndexError)"
  by (simp add: py_index_def norm_index_def)

lemma output_text_eq:
  assumes "\<forall>i\<in>set indexes. i < length letters"
  shows "output_text letters indexes = Inr (map (\<lambda>i. letters ! i) indexes)"
  using assms by (induction indexes) (simp_all add: py_index_nat)

lemma output_text_Inr:
  assumes "output_text letters indexes = Inr cs"
  shows "cs = map (\<lambda>i. letters ! i) indexes \<and> (\<forall>i\<in>set indexes. i < length letters)"
  using assms
  by (induction indexes arbitrary: cs) (auto simp: py_index_nat split: if_splits sum.splits)

lemma decode_eq_ctc_spec:
  assumes ne: "2 \<le> length predictions"
    and w: "\<forall>row\<in>set predictions. length row = Suc (length charlist)"
    and c: "charlist \<noteq> []"
  shows "decode predictions blank_char charlist = Inr (ctc_spec predictions charlist)"
proof -
  let ?idx = "map first_max_index predictions"
  let ?kept = "filter (\<lambda>i. i \<noteq> 0) (remdups_adj ?idx)"
  have rows: "\<forall>row\<in>set predictions. row \<noteq> []" using w by auto
  have wide: "\<forall>row\<in>set predictions. 2 \<le> length row"
    using w c by (cases charlist) auto
  have p: "predictions_indexes predictions = Inr ?idx"
    using ne wide by (intro predictions_indexes_eq) auto
  have o: "output_text_indexes ?idx = Inr ?kept"
    using ne by (intro output_text_indexes_eq) auto
  have bound: "\<forall>i\<in>set ?kept. i < length (blank_char # charlist)"
  proof
    fix i assume "i \<in> set ?kept"
    then obtain row where "row \<in> set predictions" "i = first_max_index row" by auto
    then show "i < length (blank_char # charlist)"
      using first_max_index_less[of row] w rows by auto
  qed
  have "map (\<lambda>i. (blank_char # charlist) ! i) ?kept = map (\<lambda>i. charlist ! (i - 1)) ?kept"
    by (rule map_cong) (auto simp: nth_Cons')
  then show ?thesis
    using p o output_text_eq[OF bound] by (simp add: decode_def ctc_spec_def)
qed

lemma frame_of_first_max:
  assumes "l < w"
  shows "first_max_index (frame_of w l) = l"
proof -
  let ?row = "frame_of w l"
  have len: "length ?row = w" by (simp add: frame_of_def)
  have nth: "?row ! j = (if j = l then 1 else 0)" if "j < w" for j
    using that by (simp add: frame_of_def)
  have "Max (set ?row) = 1"
  proof (rule Max_eqI)
    show "finite (set ?row)" by simp
    show "1 \<in> set ?row"
      using assms nth[of l] len by (metis nth_mem if_P)
    fix y assume "y \<in> set ?row"
    then show "y \<le> 1" by (auto simp: frame_of_def)
  qed
  moreover have "takeWhile (\<lambda>x. x \<noteq> 1) ?row = take l ?row"
  proof (rule takeWhile_eq_take_P_nth)
    fix i assume "i < l" "i < length ?row"
    then show "?row ! i \<noteq> 1" using nth[of i] len by simp
  next
    assume "l < length ?row"
    then show "\<not> ?row ! l \<noteq> 1" using nth[of l] len by simp
  qed
  ultimately show ?thesis
    using assms len by (simp add: first_max_index_def)
qed

lemma label_of_range:
  assumes "c \<in> set charlist"
  shows "0 < label_of charlist c \<and> label_of charlist c < Suc (length charlist)"
  using first_index_less[OF assms] by (simp add: label_of_def)

lemma label_of_letter:
  assumes "c \<in> set charlist"
  shows "charlist ! (label_of charlist c - 1) = c"
  using nth_length_takeWhile[of "\<lambda>x. x \<noteq> c" charlist] first_index_less[OF assms]
  by (simp add: label_of_def)

lemma label_of_inj: "inj_on (label_of charlist) (set charlist)"
proof (rule inj_onI)
  fix a b assume "a \<in> set charlist" "b \<in> set charlist" "label_of charlist a = label_of charlist b"
  then show "a = b" using label_of_letter[of a charlist] label_of_letter[of b charlist] by simp
qed

lemma expand_indexes:
  assumes "set symbols \<subseteq> set charlist"
  shows "map first_max_index (expand symbols charlist) = map (label_of charlist) symbols"
proof -
  have "first_max_index (frame_of (Suc (length charlist)) (label_of charlist c)) = label_of charlist c"
    if "c \<in> set symbols" for c
    using that assms label_of_range[of c charlist] by (intro frame_of_first_max) auto
  then show ?thesis by (simp add: expand_def)
qed

lemma decode_expand:
  assumes ne: "2 \<le> length symbols" and sub: "set symbols \<subseteq> set charlist"
    and adj: "distinct_adj symbols"
  shows "decode (expand symbols charlist) blank_char charlist = Inr symbols"
proof -
  let ?labels = "map (label_of charlist) symbols"
  have "inj_on (label_of charlist) (set symbols)"
    using label_of_inj sub by (rule inj_on_subset)
  with adj have "distinct_adj ?labels" by (rule distinct_adj_mapI)
  then have r: "remdups_adj ?labels = ?labels" by (simp only: distinct_adj_altdef)
  have f: "filter (\<lambda>i. i \<noteq> 0) ?labels = ?labels"
    using sub label_of_range[of _ charlist] by (auto simp: filter_id_conv)
  have "map (\<lambda>c. charlist ! (label_of charlist c - 1)) symbols = map (\<lambda>c. c) symbols"
    using sub label_of_letter[of _ charlist] by (intro map_cong) auto
  then have m: "map (\<lambda>i. charlist ! (i - 1)) ?labels = symbols"
    by (simp add: comp_def)
  have "decode (expand symbols charlist) blank_char charlist
        = Inr (ctc_spec (expand symbols charlist) charlist)"
    using ne sub by (intro decode_eq_ctc_spec) (auto simp: expand_def frame_of_def)
  then show ?thesis
    by (simp only: ctc_spec_def expand_indexes[OF sub] r f m)
qed

lemma decode_symbols_in_charlist:
  assumes "decode predictions blank_char charlist = Inr symbols"
  shows "set symbols \<subseteq> set charlist"
proof -
  from assms obtain indexes kept where
    k: "output_text_indexes indexes = Inr kept" and
    t: "output_text (blank_char # charlist) kept = Inr symbols"
    by (auto simp: decode_def split: sum.splits)
  from k have nz: "\<forall>i\<in>set kept. i \<noteq> 0"
    by (auto simp: output_text_indexes_def Let_def split: if_splits)
  from output_text_Inr[OF t] have
    s: "symbols = map (\<lambda>i. (blank_char # charlist) ! i) kept" and
    b: "\<forall>i\<in>set kept. i < length (blank_char # charlist)" by simp_all
  show ?thesis
  proof
    fix c assume "c \<in> set symbols"
    then obtain i where "i \<in> set kept" "c = (blank_char # charlist) ! i" using s by auto
    with nz b show "c \<in> set charlist" by (cases i) auto
  qed
qed

text \<open>
  C2, as the code has it. For every non-empty charlist and every probability matrix with
  at least two time steps, whose rows have one column for the blank and one for each symbol of the charlist,
  decoding is the composition, in this order, of the arg-max of every row with ties broken
  by the lowest index, the collapse of consecutive equal labels, the removal of the blank
  label 0 and the mapping of a label \<open>i\<close> to \<open>charlist[i-1]\<close>. A blank between two equal
  labels keeps both: the matrix whose rows select 0, 0, 2, 2, 3, 0, 3 decodes to BCC over
  the charlist ABC.
\<close>

theorem decode_argmax_collapse_strip_map:
  assumes "2 \<le> length predictions"
    and "\<forall>row\<in>set predictions. length row = Suc (length charlist)"
    and "charlist \<noteq> []"
  shows "decode predictions blank_char charlist =
           Inr (map (\<lambda>i. charlist ! (i - 1))
                  (filter (\<lambda>i. i \<noteq> 0) (remdups_adj (map first_max_index predictions))))
       \<and> predictions_indexes predictions = Inr (map first_max_index predictions)
       \<and> (\<forall>row\<in>set predictions.
             first_max_index row < length row
           \<and> row ! first_max_index row = Max (set row)
           \<and> (\<forall>j<first_max_index row. row ! j < Max (set row)))
       \<and> predictions_indexes
            [[9, 1, 1, 1], [5, 5, 1, 1], [1, 2, 7, 3], [0, 1, 8, 8],
             [1, 2, 3, 4], [6, 1, 1, 1], [0, 0, 0, 1]] = Inr [0, 0, 2, 2, 3, 0, 3]
       \<and> decode
            [[9, 1, 1, 1], [5, 5, 1, 1], [1, 2, 7, 3], [0, 1, 8, 8],
             [1, 2, 3, 4], [6, 1, 1, 1], [0, 0, 0, 1]] (CHR ''~'') ''ABC'' = Inr ''BCC''"
proof -
  have rows: "\<forall>row\<in>set predictions. row \<noteq> []" using assms(2) by auto
  have a: "decode predictions blank_char charlist =
           Inr (map (\<lambda>i. charlist ! (i - 1))
                  (filter (\<lambda>i. i \<noteq> 0) (remdups_adj (map first_max_index predictions))))"
    using decode_eq_ctc_spec[OF assms] by (simp only: ctc_spec_def)
  have b: "predictions_indexes predictions = Inr (map first_max_index predictions)"
    using assms by (intro predictions_indexes_eq) (cases charlist; auto)+
  have c: "\<forall>row\<in>set predictions.
             first_max_index row < length row
           \<and> row ! first_max_index row = Max (set row)
           \<and> (\<forall>j<first_max_index row. row ! j < Max (set row))"
    using rows first_max_index_less first_max_index_is_max first_max_index_lowest by blast
  have d: "predictions_indexes
            [[9, 1, 1, 1], [5, 5, 1, 1], [1, 2, 7, 3], [0, 1, 8, 8],
             [1, 2, 3, 4], [6, 1, 1, 1], [0, 0, 0, 1]] = Inr [0, 0, 2, 2, 3, 0, 3]"
    by (simp add: predictions_indexes_def np_squeeze_def np_argmax_def)
  have e: "decode
            [[9, 1, 1, 1], [5, 5, 1, 1], [1, 2, 7, 3], [0, 1, 8, 8],
             [1, 2, 3, 4], [6, 1, 1, 1], [0, 0, 0, 1]] (CHR ''~'') ''ABC'' = Inr ''BCC''"
    by (simp add: decode_def predictions_indexes_def np_squeeze_def np_argmax_def
        output_text_indexes_def py_index_def norm_index_def)
  from a b c d e show ?thesis by (intro conjI)
qed

theorem decode_argmax_collapse_strip_map_witness:
  "decode [[0, 3, 3, 1], [2, 0, 1, 0], [0, 4, 1, 4]] (CHR ''~'') ''ABC'' = Inr ''AA''"
proof -
  have h: "2 \<le> length [[0, 3, 3, 1], [2, 0, 1, 0], [0, 4, 1, 4 :: real]]"
    "\<forall>row\<in>set [[0, 3, 3, 1], [2, 0, 1, 0], [0, 4, 1, 4 :: real]]. length row = Suc (length ''ABC'')"
    "''ABC'' \<noteq> []"
    by simp_all
  have i: "first_max_index [0, 3, 3, 1 :: real] = 1" "first_max_index [2, 0, 1, 0 :: real] = 0"
    "first_max_index [0, 4, 1, 4 :: real] = 1"
    by (simp_all add: first_max_index_def)
  show ?thesis
    using decode_argmax_collapse_strip_map[OF h, of "CHR ''~''", THEN conjunct1] by (simp add: i)
qed

text \<open>
  C2 as stated fails on a matrix with fewer than two time steps, where the four steps are
  still defined. Of a single frame that selects label 1 they give A, but \<open>np.squeeze\<close>
  removes the time axis of length one and the arg-max along axis 1 raises. Of no frame they
  give the empty sequence, but the transpose of an empty list of groups raises.
\<close>

theorem decode_short_matrix_counterexample:
  "decode [[0, 1, 0, 0]] (CHR ''~'') ''ABC'' = Inl AxisError
   \<and> ctc_spec [[0, 1, 0, 0]] ''ABC'' = ''A''
   \<and> decode [] (CHR ''~'') ''ABC'' = Inl ValueError
   \<and> ctc_spec [] ''ABC'' = []"
  by (simp add: decode_def predictions_indexes_def np_squeeze_def output_text_indexes_def
      ctc_spec_def first_max_index_def)

text \<open>
  C5, as the code has it. When a matrix decodes to a sequence of at least two symbols that
  has no two equal neighbours, expanding that sequence to one frame per symbol and
  decoding the frames gives the same sequence again.
\<close>

theorem decode_expand_decode:
  assumes "decode predictions blank_char charlist = Inr symbols"
    and "2 \<le> length symbols" and "distinct_adj symbols"
  shows "redecode predictions blank_char charlist = decode predictions blank_char charlist"
  using assms decode_expand[OF assms(2) decode_symbols_in_charlist[OF assms(1)] assms(3), of blank_char]
  by (simp add: redecode_def)

theorem decode_expand_decode_witness:
  "decode [[0, 3, 3, 1], [0, 0, 5, 0], [1, 1, 6, 2], [2, 0, 1, 0], [0, 4, 1, 4]] (CHR ''~'') ''ABC''
     = Inr ''ABA''
   \<and> redecode [[0, 3, 3, 1], [0, 0, 5, 0], [1, 1, 6, 2], [2, 0, 1, 0], [0, 4, 1, 4]] (CHR ''~'') ''ABC''
     = Inr ''ABA''"
proof -
  have d: "decode [[0, 3, 3, 1], [0, 0, 5, 0], [1, 1, 6, 2], [2, 0, 1, 0], [0, 4, 1, 4]]
             (CHR ''~'') ''ABC'' = Inr ''ABA''"
    by (simp add: decode_def predictions_indexes_def np_squeeze_def np_argmax_def
        output_text_indexes_def py_index_def norm_index_def)
  have n: "2 \<le> length ''ABA''" and a: "distinct_adj ''ABA''" by simp_all
  show ?thesis
    using decode_expand_decode[OF d n a] d by simp
qed

text \<open>
  C5 as stated fails in three ways. The matrix of C2 decodes to BCC; its expansion has the
  frames of B, C and C, and the two equal frames collapse, so it decodes to BC. A matrix
  with blank frames only decodes to the empty sequence; its expansion has no frame, and
  decoding no frame raises. A matrix that decodes to the single symbol A expands to a
  single frame, whose time axis \<open>np.squeeze\<close> removes, and the arg-max raises.
\<close>

theorem decode_expand_decode_counterexample:
  "decode [[9, 1, 1, 1], [5, 5, 1, 1], [1, 2, 7, 3], [0, 1, 8, 8],
           [1, 2, 3, 4], [6, 1, 1, 1], [0, 0, 0, 1]] (CHR ''~'') ''ABC'' = Inr ''BCC''
   \<and> redecode [[9, 1, 1, 1], [5, 5, 1, 1], [1, 2, 7, 3], [0, 1, 8, 8],
           [1, 2, 3, 4], [6, 1, 1, 1], [0, 0, 0, 1]] (CHR ''~'') ''ABC'' = Inr ''BC''
   \<and> decode [[1, 0, 0, 0], [1, 0, 0, 0]] (CHR ''~'') ''ABC'' = Inr []
   \<and> redecode [[1, 0, 0, 0], [1, 0, 0, 0]] (CHR ''~'') ''ABC'' = Inl ValueError
   \<and> decode [[1, 0, 0, 0], [0, 1, 0, 0]] (CHR ''~'') ''ABC'' = Inr ''A''
   \<and> redecode [[1, 0, 0, 0], [0, 1, 0, 0]] (CHR ''~'') ''ABC'' = Inl AxisError"
  by code_simp

end
